theory Spec2Isabelle
  imports Complex_Main
begin

section \<open>Dense two-dimensional tensors\<close>

text \<open>
  The program is one function, \<open>lip\<close> of \<open>src/main.py\<close>, written against PyTorch.
  A two-dimensional \<open>torch.Tensor\<close> is modelled by its shape and its rows; a
  one-dimensional tensor (the singular values, the index vector, the refined singular
  values) by a list. The scalar type is a parameter: the same text of \<open>lip\<close> is read
  over the reals (exact arithmetic) and over the reals extended by the IEEE special
  values (type \<open>val\<close> below), where a division by zero has the result the hardware gives.
\<close>

datatype 'a tensor = Tensor (nrows: nat) (ncols: nat) (rows: "'a list list")

text \<open>The errors the tensor operations raise (all are \<open>RuntimeError\<close> or \<open>IndexError\<close> in PyTorch).\<close>

datatype error =
    MatmulShapeError   \<comment> \<open>mat1 and mat2 shapes cannot be multiplied\<close>
  | BroadcastError     \<comment> \<open>the size of tensor a must match the size of tensor b\<close>
  | IndexError         \<comment> \<open>index out of range in advanced indexing\<close>

definition bindE :: "'e + 'a \<Rightarrow> ('a \<Rightarrow> 'e + 'b) \<Rightarrow> 'e + 'b" where
  "bindE m f = (case m of Inl e \<Rightarrow> Inl e | Inr x \<Rightarrow> f x)"

definition tab :: "nat \<Rightarrow> nat \<Rightarrow> (nat \<Rightarrow> nat \<Rightarrow> 'a) \<Rightarrow> 'a tensor" where
  "tab n m f = Tensor n m (map (\<lambda>i. map (f i) [0..<m]) [0..<n])"

definition entry :: "'a tensor \<Rightarrow> nat \<Rightarrow> nat \<Rightarrow> 'a" where
  "entry T i j = rows T ! i ! j"

definition well_formed :: "'a tensor \<Rightarrow> bool" where
  "well_formed T = (length (rows T) = nrows T \<and> list_all (\<lambda>r. length r = ncols T) (rows T))"

text \<open>\<open>T.t()\<close> and \<open>T.transpose(-2, -1)\<close> of a two-dimensional tensor.\<close>

definition transpose_t :: "'a tensor \<Rightarrow> 'a tensor" where
  "transpose_t T = tab (ncols T) (nrows T) (\<lambda>i j. entry T j i)"

text \<open>
  Python's slice bounds: a negative bound counts from the end, and a bound outside the
  axis is clamped to it; no slice raises.
\<close>

definition slice_index :: "nat \<Rightarrow> int \<Rightarrow> nat" where
  "slice_index n k = (if k < 0 then nat (max 0 (int n + k)) else min (nat k) n)"

text \<open>\<open>S[:k]\<close>, \<open>T[:, :k]\<close> and \<open>T[:, k:]\<close>.\<close>

definition slice_to :: "'a list \<Rightarrow> int \<Rightarrow> 'a list" where
  "slice_to xs k = take (slice_index (length xs) k) xs"

definition slice_cols_to :: "'a tensor \<Rightarrow> int \<Rightarrow> 'a tensor" where
  "slice_cols_to T k = tab (nrows T) (slice_index (ncols T) k) (entry T)"

definition slice_cols_from :: "'a tensor \<Rightarrow> int \<Rightarrow> 'a tensor" where
  "slice_cols_from T k =
     (let c = slice_index (ncols T) k
      in tab (nrows T) (ncols T - c) (\<lambda>i j. entry T i (c + j)))"

text \<open>\<open>torch.diag\<close> of a one-dimensional tensor: the square matrix with it on the diagonal.\<close>

definition diag :: "'a::zero list \<Rightarrow> 'a tensor" where
  "diag xs = tab (length xs) (length xs) (\<lambda>i j. if i = j then xs ! i else 0)"

text \<open>
  The matrix product. \<open>mm\<close> is the product itself, an inner sum over the shared axis
  (zero when that axis is empty); \<open>matmul\<close> is the operator \<open>@\<close>, which raises unless
  the inner sizes agree.
\<close>

definition mm :: "'a::{comm_monoid_add,times} tensor \<Rightarrow> 'a tensor \<Rightarrow> 'a tensor" where
  "mm A B = tab (nrows A) (ncols B) (\<lambda>i j. \<Sum>t<ncols A. entry A i t * entry B t j)"

definition matmul :: "'a::{comm_monoid_add,times} tensor \<Rightarrow> 'a tensor \<Rightarrow> error + 'a tensor" where
  "matmul A B = (if ncols A = nrows B then Inr (mm A B) else Inl MatmulShapeError)"

text \<open>
  Broadcasting of one axis: equal sizes stay, a size of one is stretched to the other
  size, anything else raises.
\<close>

definition bdim :: "nat \<Rightarrow> nat \<Rightarrow> error + nat" where
  "bdim a b =
     (if a = b then Inr a else if a = 1 then Inr b else if b = 1 then Inr a
      else Inl BroadcastError)"

definition bidx :: "nat \<Rightarrow> nat \<Rightarrow> nat" where
  "bidx n i = (if n = 1 then 0 else i)"

definition broadcast2 :: "('a \<Rightarrow> 'a \<Rightarrow> 'a) \<Rightarrow> 'a tensor \<Rightarrow> 'a tensor \<Rightarrow> error + 'a tensor" where
  "broadcast2 f A B =
     bindE (bdim (nrows A) (nrows B)) (\<lambda>n.
     bindE (bdim (ncols A) (ncols B)) (\<lambda>m.
     Inr (tab n m (\<lambda>i j. f (entry A (bidx (nrows A) i) (bidx (ncols A) j))
                            (entry B (bidx (nrows B) i) (bidx (ncols B) j))))))"

definition sub :: "'a::minus tensor \<Rightarrow> 'a tensor \<Rightarrow> error + 'a tensor" where
  "sub A B = broadcast2 (\<lambda>x y. x - y) A B"

definition add :: "'a::plus tensor \<Rightarrow> 'a tensor \<Rightarrow> error + 'a tensor" where
  "add A B = broadcast2 (\<lambda>x y. x + y) A B"

text \<open>\<open>torch.arange(n)\<close> and the advanced indexing \<open>T[idx, jdx]\<close> by two index vectors.\<close>

definition arange :: "nat \<Rightarrow> nat list" where
  "arange n = [0..<n]"

definition index2 :: "'a tensor \<Rightarrow> nat list \<Rightarrow> nat list \<Rightarrow> error + 'a list" where
  "index2 T idx jdx =
     (if list_all (\<lambda>i. i < nrows T) idx \<and> list_all (\<lambda>j. j < ncols T) jdx
      then bindE (bdim (length idx) (length jdx)) (\<lambda>n.
             Inr (map (\<lambda>t. entry T (idx ! bidx (length idx) t) (jdx ! bidx (length jdx) t)) [0..<n]))
      else Inl IndexError)"

text \<open>The elementwise quotient of two one-dimensional tensors.\<close>

definition vdiv :: "'a::divide list \<Rightarrow> 'a list \<Rightarrow> error + 'a list" where
  "vdiv xs ys =
     bindE (bdim (length xs) (length ys)) (\<lambda>n.
       Inr (map (\<lambda>t. divide (xs ! bidx (length xs) t) (ys ! bidx (length ys) t)) [0..<n]))"

section \<open>Scalars with the IEEE special values\<close>

text \<open>
  A floating-point scalar as PyTorch computes with it, with the rounding left out: a
  finite value is a real and its arithmetic is exact, and the three special values
  behave as IEEE 754 says. The sign of zero is left out as well, so a nonzero finite
  value divided by zero is the infinity of the sign of the numerator.
\<close>

datatype val = Finite real | PosInf | NegInf | NaN

fun val_add :: "val \<Rightarrow> val \<Rightarrow> val" where
  "val_add (Finite a) (Finite b) = Finite (a + b)"
| "val_add NaN _ = NaN"
| "val_add _ NaN = NaN"
| "val_add PosInf NegInf = NaN"
| "val_add NegInf PosInf = NaN"
| "val_add PosInf _ = PosInf"
| "val_add _ PosInf = PosInf"
| "val_add NegInf _ = NegInf"
| "val_add _ NegInf = NegInf"

fun val_neg :: "val \<Rightarrow> val" where
  "val_neg (Finite a) = Finite (- a)"
| "val_neg PosInf = NegInf"
| "val_neg NegInf = PosInf"
| "val_neg NaN = NaN"

definition val_signed_inf :: "real \<Rightarrow> val" where
  "val_signed_inf s = (if s = 0 then NaN else if 0 < s then PosInf else NegInf)"

fun val_mul :: "val \<Rightarrow> val \<Rightarrow> val" where
  "val_mul (Finite a) (Finite b) = Finite (a * b)"
| "val_mul NaN _ = NaN"
| "val_mul _ NaN = NaN"
| "val_mul (Finite a) PosInf = val_signed_inf a"
| "val_mul (Finite a) NegInf = val_signed_inf (- a)"
| "val_mul PosInf (Finite b) = val_signed_inf b"
| "val_mul NegInf (Finite b) = val_signed_inf (- b)"
| "val_mul PosInf PosInf = PosInf"
| "val_mul NegInf NegInf = PosInf"
| "val_mul PosInf NegInf = NegInf"
| "val_mul NegInf PosInf = NegInf"

fun val_div :: "val \<Rightarrow> val \<Rightarrow> val" where
  "val_div (Finite a) (Finite b) = (if b = 0 then val_signed_inf a else Finite (a / b))"
| "val_div NaN _ = NaN"
| "val_div _ NaN = NaN"
| "val_div (Finite a) _ = Finite 0"
| "val_div PosInf (Finite b) = (if 0 \<le> b then PosInf else NegInf)"
| "val_div NegInf (Finite b) = (if 0 \<le> b then NegInf else PosInf)"
| "val_div _ _ = NaN"

instantiation val :: "{comm_monoid_add,times,minus,divide,one}"
begin

definition zero_val :: val where "zero_val = Finite 0"
definition one_val :: val where "one_val = Finite 1"
definition plus_val :: "val \<Rightarrow> val \<Rightarrow> val" where "plus_val a b = val_add a b"
definition minus_val :: "val \<Rightarrow> val \<Rightarrow> val" where "minus_val a b = val_add a (val_neg b)"
definition times_val :: "val \<Rightarrow> val \<Rightarrow> val" where "times_val a b = val_mul a b"
definition divide_val :: "val \<Rightarrow> val \<Rightarrow> val" where "divide_val a b = val_div a b"

instance
proof
  fix a b c :: val
  show "a + b + c = a + (b + c)"
    by (cases a; cases b; cases c) (simp_all add: plus_val_def)
  show "a + b = b + a"
    by (cases a; cases b) (simp_all add: plus_val_def)
  show "0 + a = a"
    by (cases a) (simp_all add: plus_val_def zero_val_def)
qed

end

definition is_finite :: "val \<Rightarrow> bool" where
  "is_finite x = (case x of Finite _ \<Rightarrow> True | _ \<Rightarrow> False)"

text \<open>
  Tensors of finite scalars are the real tensors: \<open>lift\<close> embeds a real tensor,
  \<open>unlift\<close> reads the finite values back.
\<close>

definition finite_t :: "val tensor \<Rightarrow> bool" where
  "finite_t T =
     list_all (\<lambda>i. list_all (\<lambda>j. is_finite (entry T i j)) [0..<ncols T]) [0..<nrows T]"

fun real_of_val :: "val \<Rightarrow> real" where
  "real_of_val (Finite a) = a"
| "real_of_val _ = 0"

definition lift :: "real tensor \<Rightarrow> val tensor" where
  "lift T = tab (nrows T) (ncols T) (\<lambda>i j. Finite (entry T i j))"

definition unlift :: "val tensor \<Rightarrow> real tensor" where
  "unlift T = tab (nrows T) (ncols T) (\<lambda>i j. real_of_val (entry T i j))"

section \<open>The function \<open>lip\<close>\<close>

text \<open>
  \<open>torch.linalg.svd\<close> is not code of the repository: it is the parameter \<open>svd\<close>, which
  returns \<open>(U, S, Vh)\<close>. The theorems that need it state what they assume of its result.
  The record holds the local variables of \<open>lip\<close> at its \<open>return\<close>.
\<close>

record 'a locals =
  var_U :: "'a tensor"
  var_S :: "'a list"
  var_V :: "'a tensor"
  var_U_k :: "'a tensor"
  var_S_k :: "'a tensor"
  var_V_k :: "'a tensor"
  var_W_k :: "'a tensor"
  var_U_l :: "'a tensor"
  var_V_l :: "'a tensor"
  var_residual :: "'a tensor"
  var_A :: "'a tensor"
  var_B :: "'a tensor"
  var_sigma_refined :: "'a list"
  var_S_l_refined :: "'a tensor"
  var_W_refined :: "'a tensor"

type_synonym 'a svd_fun = "'a tensor \<Rightarrow> 'a tensor \<times> 'a list \<times> 'a tensor"

definition lip_locals ::
  "'a::{comm_monoid_add,times,minus,divide} svd_fun \<Rightarrow> 'a tensor \<Rightarrow> 'a tensor \<Rightarrow> 'a tensor \<Rightarrow> int
     \<Rightarrow> error + 'a locals" where
  "lip_locals svd W_noisy X Y k =
     (case svd W_noisy of (U, S, Vh) \<Rightarrow>
      let V = transpose_t Vh;
          U_k = slice_cols_to U k;
          S_k = diag (slice_to S k);
          V_k = slice_cols_to V k
      in
      bindE (matmul U_k S_k) (\<lambda>U_k_S_k.
      bindE (matmul U_k_S_k (transpose_t V_k)) (\<lambda>W_k.
      let U_l = slice_cols_from U k;
          V_l = slice_cols_from V k
      in
      bindE (matmul X W_k) (\<lambda>X_W_k.
      bindE (sub Y X_W_k) (\<lambda>residual.
      bindE (matmul (transpose_t X) residual) (\<lambda>Xt_residual.
      bindE (matmul (transpose_t U_l) Xt_residual) (\<lambda>Ult_Xt_residual.
      bindE (matmul Ult_Xt_residual V_l) (\<lambda>A.
      bindE (matmul X U_l) (\<lambda>X_U_l.
      bindE (matmul (transpose_t X) X_U_l) (\<lambda>Xt_X_U_l.
      bindE (matmul (transpose_t U_l) Xt_X_U_l) (\<lambda>B.
      let diag_idx = arange (nrows A) in
      bindE (index2 A diag_idx diag_idx) (\<lambda>A_diag.
      bindE (index2 B diag_idx diag_idx) (\<lambda>B_diag.
      bindE (vdiv A_diag B_diag) (\<lambda>sigma_refined.
      let S_l_refined = diag sigma_refined in
      bindE (matmul U_l S_l_refined) (\<lambda>U_l_S_l.
      bindE (matmul U_l_S_l (transpose_t V_l)) (\<lambda>U_l_S_l_V_lt.
      bindE (add W_k U_l_S_l_V_lt) (\<lambda>W_refined.
      Inr \<lparr> var_U = U, var_S = S, var_V = V,
            var_U_k = U_k, var_S_k = S_k, var_V_k = V_k, var_W_k = W_k,
            var_U_l = U_l, var_V_l = V_l,
            var_residual = residual, var_A = A, var_B = B,
            var_sigma_refined = sigma_refined, var_S_l_refined = S_l_refined,
            var_W_refined = W_refined \<rparr>)))))))))))))))))"

definition lip ::
  "'a::{comm_monoid_add,times,minus,divide} svd_fun \<Rightarrow> 'a tensor \<Rightarrow> 'a tensor \<Rightarrow> 'a tensor \<Rightarrow> int
     \<Rightarrow> error + 'a tensor" where
  "lip svd W_noisy X Y k = bindE (lip_locals svd W_noisy X Y k) (\<lambda>vs. Inr (var_W_refined vs))"

section \<open>Vocabulary of the statements\<close>

text \<open>
  The elementwise operation on two tensors of one shape (what the broadcasting
  operations compute when the shapes agree), the zero matrix and the identity matrix.
\<close>

definition zip2 :: "('a \<Rightarrow> 'a \<Rightarrow> 'a) \<Rightarrow> 'a tensor \<Rightarrow> 'a tensor \<Rightarrow> 'a tensor" where
  "zip2 f A B = tab (nrows A) (ncols A) (\<lambda>i j. f (entry A i j) (entry B i j))"

definition zeros :: "nat \<Rightarrow> nat \<Rightarrow> 'a::zero tensor" where
  "zeros n m = tab n m (\<lambda>i j. 0)"

definition eye :: "nat \<Rightarrow> 'a::{zero,one} tensor" where
  "eye n = tab n n (\<lambda>i j. if i = j then 1 else 0)"

text \<open>
  What \<open>torch.linalg.svd\<close> promises of its result for a \<open>q \<times> l\<close> matrix, with
  \<open>m = min(q, l)\<close>: the shapes \<open>q \<times> m\<close>, \<open>m\<close> and \<open>m \<times> l\<close>; factors that multiply
  back to the matrix; orthonormal singular vectors; non-negative descending singular
  values. Each statement names the parts it needs.
\<close>

definition svd_shapes :: "'a svd_fun \<Rightarrow> 'a tensor \<Rightarrow> bool" where
  "svd_shapes svd W =
     (case svd W of (U, S, Vh) \<Rightarrow>
        nrows U = nrows W \<and> ncols U = min (nrows W) (ncols W) \<and>
        length S = min (nrows W) (ncols W) \<and>
        nrows Vh = min (nrows W) (ncols W) \<and> ncols Vh = ncols W)"

definition svd_exact :: "'a::{comm_monoid_add,times} svd_fun \<Rightarrow> 'a tensor \<Rightarrow> bool" where
  "svd_exact svd W = (case svd W of (U, S, Vh) \<Rightarrow> mm (mm U (diag S)) Vh = W)"

definition svd_orthonormal :: "'a::{comm_monoid_add,times,one} svd_fun \<Rightarrow> 'a tensor \<Rightarrow> bool" where
  "svd_orthonormal svd W =
     (case svd W of (U, S, Vh) \<Rightarrow>
        mm (transpose_t U) U = eye (ncols U) \<and> mm Vh (transpose_t Vh) = eye (nrows Vh))"

definition svd_sorted :: "real svd_fun \<Rightarrow> real tensor \<Rightarrow> bool" where
  "svd_sorted svd W =
     (case svd W of (U, S, Vh) \<Rightarrow> sorted_wrt (\<lambda>x y. y \<le> x) S \<and> list_all (\<lambda>x. 0 \<le> x) S)"

text \<open>The documented shapes of the arguments: \<open>X\<close> is \<open>n \<times> q\<close> and \<open>Y\<close> is \<open>n \<times> l\<close>.\<close>

definition conforming :: "'a tensor \<Rightarrow> 'a tensor \<Rightarrow> 'a tensor \<Rightarrow> bool" where
  "conforming W X Y = (ncols X = nrows W \<and> nrows Y = nrows X \<and> ncols Y = ncols W)"

text \<open>The decomposition has no infinity and no \<open>NaN\<close>.\<close>

definition svd_finite :: "val svd_fun \<Rightarrow> val tensor \<Rightarrow> bool" where
  "svd_finite svd W =
     (case svd W of (U, S, Vh) \<Rightarrow> finite_t U \<and> list_all is_finite S \<and> finite_t Vh)"

text \<open>
  No feature energy \<open>B[i, i]\<close> of a residual axis is zero. The matrix is the one
  \<open>lip\<close> computes, \<open>U_l\<^sup>T (X\<^sup>T (X U_l))\<close>.
\<close>

definition nondegenerate ::
  "'a::{comm_monoid_add,times} svd_fun \<Rightarrow> 'a tensor \<Rightarrow> 'a tensor \<Rightarrow> int \<Rightarrow> bool" where
  "nondegenerate svd W X k =
     (case svd W of (U, S, Vh) \<Rightarrow>
        let U_l = slice_cols_from U k;
            B = mm (transpose_t U_l) (mm (transpose_t X) (mm X U_l))
        in list_all (\<lambda>i. entry B i i \<noteq> 0) [0..<ncols U_l])"

text \<open>The Frobenius norm.\<close>

definition frobenius :: "real tensor \<Rightarrow> real" where
  "frobenius T = sqrt (\<Sum>i<nrows T. \<Sum>j<ncols T. (entry T i j)\<^sup>2)"

text \<open>
  The reference the specification compares \<open>W_k\<close> with, in its words the direct
  truncated singular value decomposition: the sum of the first \<open>k\<close> terms
  \<open>\<sigma>\<^sub>t u\<^sub>t v\<^sub>t\<^sup>T\<close>.
\<close>

definition truncated_svd_reference :: "real tensor \<times> real list \<times> real tensor \<Rightarrow> nat \<Rightarrow> real tensor" where
  "truncated_svd_reference d k =
     (case d of (U, S, Vh) \<Rightarrow>
        tab (nrows U) (ncols Vh) (\<lambda>i j. \<Sum>t<k. S ! t * (entry U i t * entry Vh t j)))"

section \<open>Vocabulary of the approximation theorem\<close>

text \<open>
  Vectors and matrices as functions of their indices, with the sizes given apart: the
  inner product of two vectors of size \<open>n\<close>, families of \<open>k\<close> vectors that are
  orthogonal, of length one or zero, orthonormal, and the sum of the first \<open>m\<close> terms
  \<open>a\<^sub>s u\<^sub>s v\<^sub>s\<^sup>T\<close> of a decomposition.
\<close>

definition dot :: "nat \<Rightarrow> (nat \<Rightarrow> real) \<Rightarrow> (nat \<Rightarrow> real) \<Rightarrow> real" where
  "dot n x y = (\<Sum>i<n. x i * y i)"

definition orthogonal_fam :: "nat \<Rightarrow> nat \<Rightarrow> (nat \<Rightarrow> nat \<Rightarrow> real) \<Rightarrow> bool" where
  "orthogonal_fam n k e = (\<forall>s<k. \<forall>t<k. s \<noteq> t \<longrightarrow> dot n (e s) (e t) = 0)"

definition unit_or_zero :: "nat \<Rightarrow> nat \<Rightarrow> (nat \<Rightarrow> nat \<Rightarrow> real) \<Rightarrow> bool" where
  "unit_or_zero n k e = (\<forall>t<k. dot n (e t) (e t) = 0 \<or> dot n (e t) (e t) = 1)"

definition orthonormal_fam :: "nat \<Rightarrow> nat \<Rightarrow> (nat \<Rightarrow> nat \<Rightarrow> real) \<Rightarrow> bool" where
  "orthonormal_fam n k e = (\<forall>s<k. \<forall>t<k. dot n (e s) (e t) = (if s = t then 1 else 0))"

definition svd_sum ::
  "nat \<Rightarrow> (nat \<Rightarrow> nat \<Rightarrow> real) \<Rightarrow> (nat \<Rightarrow> real) \<Rightarrow> (nat \<Rightarrow> nat \<Rightarrow> real) \<Rightarrow> nat \<Rightarrow> nat \<Rightarrow> real" where
  "svd_sum m u a v i j = (\<Sum>s<m. u s i * a s * v s j)"

section \<open>The same function on a store\<close>

text \<open>
  To speak of what \<open>lip\<close> does to its arguments, the two-dimensional tensors live in a
  store: a list of storages, addressed by position. A tensor object is a storage
  address and the view through which the storage is read; slicing and transposing
  make a new view of the same storage, every other operation of the source makes a
  new storage. No operation of the source writes to a storage that exists. The
  one-dimensional tensors are values here; none of them is an argument.
\<close>

datatype view_op = Transposed | ColsTo int | ColsFrom int

datatype tref = TRef (base: nat) (path: "view_op list")

type_synonym 'a store = "'a tensor list"

fun apply_view :: "'a tensor \<Rightarrow> view_op \<Rightarrow> 'a tensor" where
  "apply_view T Transposed = transpose_t T"
| "apply_view T (ColsTo k) = slice_cols_to T k"
| "apply_view T (ColsFrom k) = slice_cols_from T k"

definition deref :: "'a store \<Rightarrow> tref \<Rightarrow> 'a tensor" where
  "deref h r = foldl apply_view (h ! base r) (path r)"

definition view :: "tref \<Rightarrow> view_op \<Rightarrow> tref" where
  "view r v = TRef (base r) (path r @ [v])"

definition alloc :: "'a tensor \<Rightarrow> 'a store \<Rightarrow> tref \<times> 'a store" where
  "alloc T h = (TRef (length h) [], h @ [T])"

type_synonym ('a, 'r) st = "'a store \<Rightarrow> (error + 'r) \<times> 'a store"

definition bindS :: "('a, 'r) st \<Rightarrow> ('r \<Rightarrow> ('a, 's) st) \<Rightarrow> ('a, 's) st" where
  "bindS m f h = (case m h of (Inl e, h') \<Rightarrow> (Inl e, h') | (Inr x, h') \<Rightarrow> f x h')"

definition returnS :: "'r \<Rightarrow> ('a, 'r) st" where
  "returnS x h = (Inr x, h)"

definition new_tensor :: "error + 'a tensor \<Rightarrow> ('a, tref) st" where
  "new_tensor res h =
     (case res of Inl e \<Rightarrow> (Inl e, h) | Inr T \<Rightarrow> (case alloc T h of (r, h') \<Rightarrow> (Inr r, h')))"

definition st_svd :: "'a svd_fun \<Rightarrow> tref \<Rightarrow> ('a, tref \<times> 'a list \<times> tref) st" where
  "st_svd svd w h =
     (case svd (deref h w) of (U, S, Vh) \<Rightarrow>
        (case alloc U h of (u, h1) \<Rightarrow>
           (case alloc Vh h1 of (vh, h2) \<Rightarrow> (Inr (u, S, vh), h2))))"

definition st_matmul :: "tref \<Rightarrow> tref \<Rightarrow> ('a::{comm_monoid_add,times}, tref) st" where
  "st_matmul a b h = new_tensor (matmul (deref h a) (deref h b)) h"

definition st_sub :: "tref \<Rightarrow> tref \<Rightarrow> ('a::minus, tref) st" where
  "st_sub a b h = new_tensor (sub (deref h a) (deref h b)) h"

definition st_add :: "tref \<Rightarrow> tref \<Rightarrow> ('a::plus, tref) st" where
  "st_add a b h = new_tensor (add (deref h a) (deref h b)) h"

definition st_diag :: "'a::zero list \<Rightarrow> ('a, tref) st" where
  "st_diag xs h = new_tensor (Inr (diag xs)) h"

definition st_nrows :: "tref \<Rightarrow> ('a, nat) st" where
  "st_nrows a h = (Inr (nrows (deref h a)), h)"

definition st_index2 :: "tref \<Rightarrow> nat list \<Rightarrow> nat list \<Rightarrow> ('a, 'a list) st" where
  "st_index2 a idx jdx h = (index2 (deref h a) idx jdx, h)"

definition st_vdiv :: "'a::divide list \<Rightarrow> 'a list \<Rightarrow> ('a, 'a list) st" where
  "st_vdiv xs ys h = (vdiv xs ys, h)"

definition lip_st ::
  "'a::{comm_monoid_add,times,minus,divide} svd_fun \<Rightarrow> tref \<Rightarrow> tref \<Rightarrow> tref \<Rightarrow> int
     \<Rightarrow> ('a, tref) st" where
  "lip_st svd W_noisy X Y k =
     bindS (st_svd svd W_noisy) (\<lambda>(U, S, Vh).
     let V = view Vh Transposed;
         U_k = view U (ColsTo k)
     in
     bindS (st_diag (slice_to S k)) (\<lambda>S_k.
     let V_k = view V (ColsTo k) in
     bindS (st_matmul U_k S_k) (\<lambda>U_k_S_k.
     bindS (st_matmul U_k_S_k (view V_k Transposed)) (\<lambda>W_k.
     let U_l = view U (ColsFrom k);
         V_l = view V (ColsFrom k)
     in
     bindS (st_matmul X W_k) (\<lambda>X_W_k.
     bindS (st_sub Y X_W_k) (\<lambda>residual.
     bindS (st_matmul (view X Transposed) residual) (\<lambda>Xt_residual.
     bindS (st_matmul (view U_l Transposed) Xt_residual) (\<lambda>Ult_Xt_residual.
     bindS (st_matmul Ult_Xt_residual V_l) (\<lambda>A.
     bindS (st_matmul X U_l) (\<lambda>X_U_l.
     bindS (st_matmul (view X Transposed) X_U_l) (\<lambda>Xt_X_U_l.
     bindS (st_matmul (view U_l Transposed) Xt_X_U_l) (\<lambda>B.
     bindS (st_nrows A) (\<lambda>n.
     let diag_idx = arange n in
     bindS (st_index2 A diag_idx diag_idx) (\<lambda>A_diag.
     bindS (st_index2 B diag_idx diag_idx) (\<lambda>B_diag.
     bindS (st_vdiv A_diag B_diag) (\<lambda>sigma_refined.
     bindS (st_diag sigma_refined) (\<lambda>S_l_refined.
     bindS (st_matmul U_l S_l_refined) (\<lambda>U_l_S_l.
     bindS (st_matmul U_l_S_l (view V_l Transposed)) (\<lambda>U_l_S_l_V_lt.
     bindS (st_add W_k U_l_S_l_V_lt) (\<lambda>W_refined.
     returnS W_refined))))))))))))))))))))"

text \<open>A computation grows the store when it leaves every storage it found as it was.\<close>

definition grows :: "('a, 'r) st \<Rightarrow> bool" where
  "grows m = (\<forall>h. \<exists>ext. snd (m h) = h @ ext)"

section \<open>Example data\<close>

text \<open>
  A matrix that is zero off its main diagonal, with a non-negative descending diagonal,
  has the identity bases and its own diagonal as singular value decomposition; this is
  the decomposition the examples run \<open>lip\<close> on.
\<close>

definition svd_diag :: "'a::{zero,one} svd_fun" where
  "svd_diag W =
     (let m = min (nrows W) (ncols W)
      in (tab (nrows W) m (\<lambda>i j. if i = j then 1 else 0),
          map (\<lambda>i. entry W i i) [0..<m],
          tab m (ncols W) (\<lambda>i j. if i = j then 1 else 0)))"

definition W_ex :: "real tensor" where
  "W_ex = Tensor 2 2 [[2, 0], [0, 1]]"

definition X_ex :: "real tensor" where
  "X_ex = Tensor 3 2 [[1, 0], [0, 1], [1, 1]]"

definition Y_ex :: "real tensor" where
  "Y_ex = Tensor 3 2 [[2, 1], [0, 3], [1, 1]]"

text \<open>Labels of one column, which the subtraction stretches over the columns.\<close>

definition Y_col :: "real tensor" where
  "Y_col = Tensor 3 1 [[2], [0], [1]]"

text \<open>A competitor of rank one for the example matrix.\<close>

definition P_ex :: "real tensor" where
  "P_ex = Tensor 2 1 [[1], [1]]"

definition Q_ex :: "real tensor" where
  "Q_ex = Tensor 1 2 [[1, 1]]"

text \<open>The example inputs as tensors of finite scalars.\<close>

definition W_fin :: "val tensor" where
  "W_fin = lift W_ex"

definition X_fin :: "val tensor" where
  "X_fin = lift X_ex"

definition Y_fin :: "val tensor" where
  "Y_fin = lift Y_ex"


text \<open>
  A degenerate input: the features have no energy along the second singular
  direction, the one left to the residual subspace by \<open>k = 1\<close>.
\<close>

definition W_deg :: "val tensor" where
  "W_deg = Tensor 2 2 [[Finite 2, Finite 0], [Finite 0, Finite 1]]"

definition X_deg :: "val tensor" where
  "X_deg = Tensor 1 2 [[Finite 1, Finite 0]]"

definition Y_deg :: "val tensor" where
  "Y_deg = Tensor 1 2 [[Finite 2, Finite 0]]"

text \<open>A store that holds the example arguments at the addresses 0, 1 and 2.\<close>

definition store_ex :: "real store" where
  "store_ex = [W_ex, X_ex, Y_ex]"

section \<open>Shapes and entries of the tensor operations\<close>

lemma nrows_tab [simp]: "nrows (tab n m f) = n"
  by (simp add: tab_def)

lemma ncols_tab [simp]: "ncols (tab n m f) = m"
  by (simp add: tab_def)

lemma entry_tab [simp]: "i < n \<Longrightarrow> j < m \<Longrightarrow> entry (tab n m f) i j = f i j"
  by (simp add: tab_def entry_def)

lemma well_formed_tab [simp]: "well_formed (tab n m f)"
  by (simp add: well_formed_def tab_def list_all_iff)

lemma tab_cong: "(\<And>i j. i < n \<Longrightarrow> j < m \<Longrightarrow> f i j = g i j) \<Longrightarrow> tab n m f = tab n m g"
  by (simp add: tab_def)

lemma tab_eq_iff: "tab n m f = tab n' m' g \<longleftrightarrow> n = n' \<and> m = m' \<and> (\<forall>i<n. \<forall>j<m. f i j = g i j)"
  by (auto simp add: tab_def list_eq_iff_nth_eq)

lemma tab_entry: "well_formed T \<Longrightarrow> tab (nrows T) (ncols T) (entry T) = T"
  by (cases T) (auto simp add: tab_def well_formed_def entry_def list_all_iff list_eq_iff_nth_eq)

lemma tensor_eqI:
  "well_formed A \<Longrightarrow> well_formed B \<Longrightarrow> nrows A = nrows B \<Longrightarrow> ncols A = ncols B \<Longrightarrow>
   (\<And>i j. i < nrows A \<Longrightarrow> j < ncols A \<Longrightarrow> entry A i j = entry B i j) \<Longrightarrow> A = B"
  by (metis tab_entry tab_cong)

lemma bindE_Inr [simp]: "bindE (Inr x) f = f x"
  by (simp add: bindE_def)

lemma bindE_Inl [simp]: "bindE (Inl e) f = Inl e"
  by (simp add: bindE_def)

lemma shape_transpose_t [simp]:
  "nrows (transpose_t T) = ncols T" "ncols (transpose_t T) = nrows T"
  by (simp_all add: transpose_t_def)

lemma entry_transpose_t [simp]:
  "i < ncols T \<Longrightarrow> j < nrows T \<Longrightarrow> entry (transpose_t T) i j = entry T j i"
  by (simp add: transpose_t_def)

lemma shape_mm [simp]: "nrows (mm A B) = nrows A" "ncols (mm A B) = ncols B"
  by (simp_all add: mm_def)

lemma entry_mm [simp]:
  "i < nrows A \<Longrightarrow> j < ncols B \<Longrightarrow> entry (mm A B) i j = (\<Sum>t<ncols A. entry A i t * entry B t j)"
  by (simp add: mm_def)

lemma shape_diag [simp]: "nrows (diag xs) = length xs" "ncols (diag xs) = length xs"
  by (simp_all add: diag_def)

lemma entry_diag [simp]:
  "i < length xs \<Longrightarrow> j < length xs \<Longrightarrow> entry (diag xs) i j = (if i = j then xs ! i else 0)"
  by (simp add: diag_def)

lemma slice_index_le [simp]: "slice_index n k \<le> n"
  by (auto simp add: slice_index_def)

lemma slice_index_ge [simp]: "int n \<le> k \<Longrightarrow> slice_index n k = n"
  by (simp add: slice_index_def)

lemma slice_index_0 [simp]: "slice_index n 0 = 0"
  by (simp add: slice_index_def)

lemma slice_index_in_range: "0 \<le> k \<Longrightarrow> k \<le> int n \<Longrightarrow> slice_index n k = nat k"
  by (simp add: slice_index_def)

lemma length_slice_to [simp]: "length (slice_to xs k) = slice_index (length xs) k"
  by (simp add: slice_to_def)

lemma nth_slice_to [simp]: "i < slice_index (length xs) k \<Longrightarrow> slice_to xs k ! i = xs ! i"
  by (simp add: slice_to_def)

lemma shape_slice_cols_to [simp]:
  "nrows (slice_cols_to T k) = nrows T" "ncols (slice_cols_to T k) = slice_index (ncols T) k"
  by (simp_all add: slice_cols_to_def)

lemma entry_slice_cols_to [simp]:
  "i < nrows T \<Longrightarrow> j < slice_index (ncols T) k \<Longrightarrow> entry (slice_cols_to T k) i j = entry T i j"
  by (simp add: slice_cols_to_def)

lemma shape_slice_cols_from [simp]:
  "nrows (slice_cols_from T k) = nrows T"
  "ncols (slice_cols_from T k) = ncols T - slice_index (ncols T) k"
  by (simp_all add: slice_cols_from_def Let_def)

lemma entry_slice_cols_from [simp]:
  "i < nrows T \<Longrightarrow> j < ncols T - slice_index (ncols T) k \<Longrightarrow>
   entry (slice_cols_from T k) i j = entry T i (slice_index (ncols T) k + j)"
  by (simp add: slice_cols_from_def Let_def)

lemma matmul_ok [simp]: "ncols A = nrows B \<Longrightarrow> matmul A B = Inr (mm A B)"
  by (simp add: matmul_def)

lemma matmul_err: "ncols A \<noteq> nrows B \<Longrightarrow> matmul A B = Inl MatmulShapeError"
  by (simp add: matmul_def)

lemma bdim_same [simp]: "bdim n n = Inr n"
  by (simp add: bdim_def)

lemma bdim_one [simp]: "bdim (Suc 0) n = Inr n"
  by (simp add: bdim_def)

lemma bidx_id [simp]: "n \<noteq> Suc 0 \<Longrightarrow> bidx n i = i"
  by (simp add: bidx_def)

lemma bidx_lt [simp]: "i < n \<Longrightarrow> bidx n i = i"
  by (auto simp add: bidx_def)

lemma broadcast2_same:
  "nrows A = nrows B \<Longrightarrow> ncols A = ncols B \<Longrightarrow> broadcast2 f A B = Inr (zip2 f A B)"
  by (simp add: broadcast2_def zip2_def tab_eq_iff)

lemma index2_diag:
  "n \<le> nrows T \<Longrightarrow> n \<le> ncols T \<Longrightarrow>
   index2 T (arange n) (arange n) = Inr (map (\<lambda>i. entry T i i) [0..<n])"
  by (simp add: index2_def arange_def list_all_iff)

lemma vdiv_same:
  "length xs = length ys \<Longrightarrow>
   vdiv xs ys = Inr (map (\<lambda>i. divide (xs ! i) (ys ! i)) [0..<length xs])"
  by (simp add: vdiv_def)

lemma vdiv_map:
  "vdiv (map f [0..<n]) (map g [0..<n]) = Inr (map (\<lambda>i. divide (f i) (g i)) [0..<n])"
  by (simp add: vdiv_def)

lemma broadcast2_stretch:
  assumes "nrows A = nrows B \<or> nrows A = 1" and "ncols A = ncols B \<or> ncols A = 1"
  shows "broadcast2 f A B =
     Inr (tab (nrows B) (ncols B)
            (\<lambda>i j. f (entry A (bidx (nrows A) i) (bidx (ncols A) j)) (entry B i j)))"
  using assms by (auto simp add: broadcast2_def bdim_def tab_eq_iff)

text \<open>
  The run of \<open>lip\<close> when the shapes fit: every operation succeeds, and the local
  variables have the values the source text gives them. The labels may have one row
  or one column only, which the subtraction stretches.
\<close>

lemma lip_locals_stretch:
  fixes svd :: "'a::{comm_monoid_add,times,minus,divide} svd_fun"
    and U Vh X Y :: "'a tensor" and S :: "'a list" and k :: int
  assumes svd: "svd W = (U, S, Vh)"
    and shapes: "ncols U = length S" "nrows Vh = length S"
    and X: "ncols X = nrows U"
    and Y: "nrows Y = nrows X \<or> nrows Y = 1" "ncols Y = ncols Vh \<or> ncols Y = 1"
  defines "V \<equiv> transpose_t Vh"
  defines "U_k \<equiv> slice_cols_to U k" and "V_k \<equiv> slice_cols_to V k"
    and "U_l \<equiv> slice_cols_from U k" and "V_l \<equiv> slice_cols_from V k"
  defines "W_k \<equiv> mm (mm U_k (diag (slice_to S k))) (transpose_t V_k)"
  defines "residual \<equiv> tab (nrows X) (ncols Vh)
      (\<lambda>i j. entry Y (bidx (nrows Y) i) (bidx (ncols Y) j) - entry (mm X W_k) i j)"
  defines "A \<equiv> mm (mm (transpose_t U_l) (mm (transpose_t X) residual)) V_l"
    and "B \<equiv> mm (transpose_t U_l) (mm (transpose_t X) (mm X U_l))"
  defines "sigma \<equiv> map (\<lambda>i. divide (entry A i i) (entry B i i)) [0..<length S - slice_index (length S) k]"
  shows "lip_locals svd W X Y k =
     Inr \<lparr> var_U = U, var_S = S, var_V = V,
           var_U_k = U_k, var_S_k = diag (slice_to S k), var_V_k = V_k, var_W_k = W_k,
           var_U_l = U_l, var_V_l = V_l,
           var_residual = residual, var_A = A, var_B = B,
           var_sigma_refined = sigma, var_S_l_refined = diag sigma,
           var_W_refined = zip2 (\<lambda>x y. x + y) W_k (mm (mm U_l (diag sigma)) (transpose_t V_l)) \<rparr>"
proof -
  have "sub Y (mm X W_k) = Inr residual"
    unfolding sub_def residual_def
    by (rule trans [OF broadcast2_stretch]) (use Y in \<open>simp_all add: W_k_def V_k_def V_def\<close>)
  then show ?thesis
    unfolding lip_locals_def svd assms(7-)
    by (simp add: Let_def shapes X add_def broadcast2_same index2_diag vdiv_map zip2_def)
qed

lemma lip_locals_ok:
  fixes svd :: "'a::{comm_monoid_add,times,minus,divide} svd_fun"
    and U Vh X Y :: "'a tensor" and S :: "'a list" and k :: int
  assumes svd: "svd W = (U, S, Vh)"
    and shapes: "ncols U = length S" "nrows Vh = length S"
    and X: "ncols X = nrows U"
    and Y: "nrows Y = nrows X" "ncols Y = ncols Vh"
  defines "V \<equiv> transpose_t Vh"
  defines "U_k \<equiv> slice_cols_to U k" and "V_k \<equiv> slice_cols_to V k"
    and "U_l \<equiv> slice_cols_from U k" and "V_l \<equiv> slice_cols_from V k"
  defines "W_k \<equiv> mm (mm U_k (diag (slice_to S k))) (transpose_t V_k)"
  defines "residual \<equiv> zip2 (\<lambda>x y. x - y) Y (mm X W_k)"
  defines "A \<equiv> mm (mm (transpose_t U_l) (mm (transpose_t X) residual)) V_l"
    and "B \<equiv> mm (transpose_t U_l) (mm (transpose_t X) (mm X U_l))"
  defines "sigma \<equiv> map (\<lambda>i. divide (entry A i i) (entry B i i)) [0..<length S - slice_index (length S) k]"
  shows "lip_locals svd W X Y k =
     Inr \<lparr> var_U = U, var_S = S, var_V = V,
           var_U_k = U_k, var_S_k = diag (slice_to S k), var_V_k = V_k, var_W_k = W_k,
           var_U_l = U_l, var_V_l = V_l,
           var_residual = residual, var_A = A, var_B = B,
           var_sigma_refined = sigma, var_S_l_refined = diag sigma,
           var_W_refined = zip2 (\<lambda>x y. x + y) W_k (mm (mm U_l (diag sigma)) (transpose_t V_l)) \<rparr>"
proof -
  have "tab (nrows X) (ncols Vh)
      (\<lambda>i j. entry Y (bidx (nrows Y) i) (bidx (ncols Y) j) - entry (mm X W_k) i j) = residual"
    unfolding residual_def zip2_def using Y by (simp add: tab_eq_iff)
  then show ?thesis
    using lip_locals_stretch [of svd W U S Vh X Y k, OF svd shapes X] Y
    unfolding assms(7-) by simp
qed

lemma svd_shapesD:
  assumes "svd_shapes svd W" and "svd W = (U, S, Vh)"
  shows "nrows U = nrows W" "ncols U = length S" "nrows Vh = length S" "ncols Vh = ncols W"
    "length S = min (nrows W) (ncols W)"
  using assms by (simp_all add: svd_shapes_def)

lemma mm_empty_inner [simp]: "ncols A = 0 \<Longrightarrow> mm A B = zeros (nrows A) (ncols B)"
  by (simp add: mm_def zeros_def)

lemma shape_zeros [simp]: "nrows (zeros n m) = n" "ncols (zeros n m) = m"
  by (simp_all add: zeros_def)

lemma entry_zeros [simp]: "i < n \<Longrightarrow> j < m \<Longrightarrow> entry (zeros n m) i j = 0"
  by (simp add: zeros_def)

lemma shape_zip2 [simp]: "nrows (zip2 f A B) = nrows A" "ncols (zip2 f A B) = ncols A"
  by (simp_all add: zip2_def)

lemma entry_zip2 [simp]:
  "i < nrows A \<Longrightarrow> j < ncols A \<Longrightarrow> entry (zip2 f A B) i j = f (entry A i j) (entry B i j)"
  by (simp add: zip2_def)

lemma well_formed_ops [simp]:
  "well_formed (mm A B)" "well_formed (zip2 f C D)" "well_formed (transpose_t E)"
  "well_formed (diag xs)" "well_formed (zeros n m)"
  "well_formed (slice_cols_to F k)" "well_formed (slice_cols_from G k)"
  by (simp_all add: mm_def zip2_def transpose_t_def diag_def zeros_def slice_cols_to_def
      slice_cols_from_def Let_def)

lemma zip2_add_zeros_right:
  fixes A :: "'a::comm_monoid_add tensor"
  assumes "well_formed A" shows "zip2 (\<lambda>x y. x + y) A (zeros (nrows A) (ncols A)) = A"
  by (rule tensor_eqI) (simp_all add: assms)

lemma zip2_add_zeros_left:
  fixes A :: "'a::comm_monoid_add tensor"
  assumes "well_formed A" shows "zip2 (\<lambda>x y. x + y) (zeros (nrows A) (ncols A)) A = A"
  by (rule tensor_eqI) (simp_all add: assms)

lemma mm_cong:
  assumes "nrows A = nrows A'" "ncols A = ncols A'" "ncols B = ncols B'"
    and "\<And>i t. i < nrows A \<Longrightarrow> t < ncols A \<Longrightarrow> entry A i t = entry A' i t"
    and "\<And>t j. t < ncols A \<Longrightarrow> j < ncols B \<Longrightarrow> entry B t j = entry B' t j"
  shows "mm A B = mm A' B'"
  unfolding mm_def using assms by (auto simp add: tab_eq_iff intro!: sum.cong)

lemma tab_0_rows [simp]: "tab 0 m f = Tensor 0 m []"
  by (simp add: tab_def)

lemma slice_psp_full:
  fixes U Vh :: "'a::{comm_monoid_add,times} tensor"
  assumes "ncols U = length S" "nrows Vh = length S" "int (length S) \<le> k"
  shows "mm (mm (slice_cols_to U k) (diag (slice_to S k)))
            (transpose_t (slice_cols_to (transpose_t Vh) k)) = mm (mm U (diag S)) Vh"
  using assms by (intro mm_cong) (simp_all add: slice_to_def)

lemma bdim_Inr_iff: "(\<exists>n. bdim a b = Inr n) \<longleftrightarrow> a = b \<or> a = 1 \<or> b = 1"
  by (auto simp add: bdim_def)

lemma lip_error_cases:
  fixes svd :: "'a::{comm_monoid_add,times,minus,divide} svd_fun"
  assumes svd: "svd W = (U, S, Vh)"
    and shapes: "ncols U = length S" "nrows Vh = length S"
    and bad: "ncols X \<noteq> nrows U \<or> \<not> (nrows Y = nrows X \<or> nrows Y = 1)
       \<or> \<not> (ncols Y = ncols Vh \<or> ncols Y = 1)"
  shows "\<exists>e. lip_locals svd W X Y k = Inl e"
proof (cases "ncols X = nrows U")
  case False
  then show ?thesis
    unfolding lip_locals_def svd
    by (simp add: Let_def shapes matmul_err)
next
  case X: True
  show ?thesis
  proof (cases "\<exists>n. bdim (nrows Y) (nrows X) = Inr n")
    case False
    then show ?thesis
      unfolding lip_locals_def svd
      by (cases "bdim (nrows Y) (nrows X)") (simp_all add: Let_def shapes X sub_def broadcast2_def)
  next
    case True
    then obtain n where n: "bdim (nrows Y) (nrows X) = Inr n" ..
    show ?thesis
    proof (cases "\<exists>m. bdim (ncols Y) (ncols Vh) = Inr m")
      case False
      then show ?thesis
      unfolding lip_locals_def svd
      by (cases "bdim (ncols Y) (ncols Vh)") (simp_all add: Let_def shapes X sub_def broadcast2_def n)
    next
      case True
      then obtain m where m: "bdim (ncols Y) (ncols Vh) = Inr m" ..
      from bad X n m have "n \<noteq> nrows X \<or> m \<noteq> ncols Vh"
        by (auto simp add: bdim_def split: if_splits)
      then show ?thesis
        unfolding lip_locals_def svd
        by (auto simp add: Let_def shapes X sub_def broadcast2_def n m matmul_def)
    qed
  qed
qed

text \<open>The same run, read off variable by variable in the order of the source.\<close>

lemma lip_locals_run:
  fixes svd :: "'a::{comm_monoid_add,times,minus,divide} svd_fun"
  assumes "svd W = (U, S, Vh)"
    and "ncols U = length S" "nrows Vh = length S"
    and "ncols X = nrows U" "nrows Y = nrows X" "ncols Y = ncols Vh"
  obtains (run) vs where
    "lip_locals svd W X Y k = Inr vs"
    "var_U vs = U" "var_S vs = S" "var_V vs = transpose_t Vh"
    "var_U_k vs = slice_cols_to (var_U vs) k"
    "var_S_k vs = diag (slice_to (var_S vs) k)"
    "var_V_k vs = slice_cols_to (var_V vs) k"
    "var_W_k vs = mm (mm (var_U_k vs) (var_S_k vs)) (transpose_t (var_V_k vs))"
    "var_U_l vs = slice_cols_from (var_U vs) k"
    "var_V_l vs = slice_cols_from (var_V vs) k"
    "var_residual vs = zip2 (\<lambda>x y. x - y) Y (mm X (var_W_k vs))"
    "var_A vs = mm (mm (transpose_t (var_U_l vs)) (mm (transpose_t X) (var_residual vs))) (var_V_l vs)"
    "var_B vs = mm (transpose_t (var_U_l vs)) (mm (transpose_t X) (mm X (var_U_l vs)))"
    "var_sigma_refined vs =
       map (\<lambda>i. divide (entry (var_A vs) i i) (entry (var_B vs) i i)) [0..<ncols (var_U_l vs)]"
    "var_S_l_refined vs = diag (var_sigma_refined vs)"
    "var_W_refined vs = zip2 (\<lambda>x y. x + y) (var_W_k vs)
       (mm (mm (var_U_l vs) (var_S_l_refined vs)) (transpose_t (var_V_l vs)))"
proof -
  note ok = lip_locals_ok [of svd W U S Vh X Y k, OF assms]
  show thesis
    by (rule that [OF ok]) (simp_all add: assms)
qed

section \<open>Matrix algebra\<close>

lemma mm_assoc:
  fixes A B C :: "'a::comm_semiring_0 tensor"
  assumes "ncols A = nrows B" "ncols B = nrows C"
  shows "mm (mm A B) C = mm A (mm B C)"
proof -
  have "(\<Sum>t<ncols B. (\<Sum>s<ncols A. entry A i s * entry B s t) * entry C t j) =
        (\<Sum>s<ncols A. entry A i s * (\<Sum>t<ncols B. entry B s t * entry C t j))" for i j
    unfolding sum_distrib_left sum_distrib_right
    by (subst sum.swap) (simp add: mult.assoc)
  then show ?thesis
    using assms by (simp add: mm_def tab_eq_iff)
qed

lemma sum_mult_delta [simp]:
  fixes f g :: "nat \<Rightarrow> 'a::semiring_0"
  shows "(\<Sum>s<n. f s * (if s = t then g s else 0)) = (if t < n then f t * g t else 0)"
proof -
  have "(\<Sum>s<n. f s * (if s = t then g s else 0)) = (\<Sum>s<n. if s = t then f s * g s else 0)"
    by (rule sum.cong) simp_all
  then show ?thesis
    by (simp add: sum.delta)
qed

lemma entry_mm_diag:
  fixes A :: "'a::semiring_0 tensor"
  assumes "ncols A = length xs" "i < nrows A" "t < length xs"
  shows "entry (mm A (diag xs)) i t = entry A i t * xs ! t"
  using assms by simp

lemma mm_zeros_left:
  fixes B :: "'a::semiring_0 tensor"
  shows "mm (zeros n p) B = zeros n (ncols B)"
  by (simp add: mm_def zeros_def tab_eq_iff)

lemma mm_zeros_right:
  fixes A :: "'a::semiring_0 tensor"
  shows "mm A (zeros (ncols A) p) = zeros (nrows A) p"
  by (simp add: mm_def zeros_def tab_eq_iff)

lemma shape_eye [simp]: "nrows (eye n) = n" "ncols (eye n) = n"
  by (simp_all add: eye_def)

lemma entry_eye [simp]: "i < n \<Longrightarrow> j < n \<Longrightarrow> entry (eye n) i j = (if i = j then 1 else 0)"
  by (simp add: eye_def)

text \<open>Columns on the two sides of the cut are orthogonal.\<close>

lemma slices_orthogonal:
  fixes U :: "'a::semiring_1 tensor"
  assumes "mm (transpose_t U) U = eye (ncols U)"
  shows "mm (transpose_t (slice_cols_to U k)) (slice_cols_from U k) =
         zeros (slice_index (ncols U) k) (ncols U - slice_index (ncols U) k)"
proof -
  let ?c = "slice_index (ncols U) k"
  have "(\<Sum>t<nrows U. entry U t a * entry U t (?c + b)) = 0"
    if "a < ?c" "b < ncols U - ?c" for a b
  proof -
    from that have *: "a < ncols U" "?c + b < ncols U" "a \<noteq> ?c + b"
      using slice_index_le [of "ncols U" k] by simp_all
    then have "entry (mm (transpose_t U) U) a (?c + b) = (\<Sum>t<nrows U. entry U t a * entry U t (?c + b))"
      by simp
    with * show ?thesis
      by (simp add: assms)
  qed
  then show ?thesis
    by (simp add: mm_def zeros_def tab_eq_iff)
qed

lemma slice_index_less: "t < slice_index n k \<Longrightarrow> t < n"
  by (rule less_le_trans [OF _ slice_index_le])

lemma entry_mm_diag_mm:
  fixes A B :: "'a::semiring_0 tensor"
  assumes "ncols A = length xs" "i < nrows A" "j < ncols B"
  shows "entry (mm (mm A (diag xs)) B) i j = (\<Sum>t<length xs. entry A i t * xs ! t * entry B t j)"
  using assms by (simp add: entry_mm_diag)

lemma sum_split_at:
  fixes f :: "nat \<Rightarrow> 'a::comm_monoid_add"
  assumes "c \<le> m"
  shows "(\<Sum>t<m. f t) = (\<Sum>t<c. f t) + (\<Sum>t<m - c. f (c + t))"
proof -
  have "(\<Sum>t<m. f t) = (\<Sum>t = 0..<c. f t) + (\<Sum>t = c..<m. f t)"
    using assms by (simp add: sum.atLeastLessThan_concat lessThan_atLeast0)
  also have "(\<Sum>t = c..<m. f t) = (\<Sum>t = 0..<m - c. f (t + c))"
    using sum.shift_bounds_nat_ivl [of f 0 c "m - c"] assms by simp
  finally show ?thesis
    by (simp add: lessThan_atLeast0 add.commute)
qed

text \<open>The decomposition splits at the cut into the preserved and the residual term.\<close>

lemma svd_split:
  fixes U Vh :: "'a::semiring_0 tensor"
  assumes "ncols U = length S" "nrows Vh = length S"
  shows "mm (mm U (diag S)) Vh =
     zip2 (\<lambda>x y. x + y)
       (mm (mm (slice_cols_to U k) (diag (slice_to S k))) (transpose_t (slice_cols_to (transpose_t Vh) k)))
       (mm (mm (slice_cols_from U k) (diag (drop (slice_index (length S) k) S)))
           (transpose_t (slice_cols_from (transpose_t Vh) k)))"
proof (rule tensor_eqI)
  let ?c = "slice_index (length S) k"
  fix i j
  assume "i < nrows (mm (mm U (diag S)) Vh)" "j < ncols (mm (mm U (diag S)) Vh)"
  then have ij: "i < nrows U" "j < ncols Vh"
    by simp_all
  have "entry (mm (mm U (diag S)) Vh) i j = (\<Sum>t<length S. entry U i t * S ! t * entry Vh t j)"
    using assms ij by (simp add: entry_mm_diag_mm)
  also have "\<dots> = (\<Sum>t<?c. entry U i t * S ! t * entry Vh t j) +
      (\<Sum>t<length S - ?c. entry U i (?c + t) * S ! (?c + t) * entry Vh (?c + t) j)"
    by (rule sum_split_at) simp
  also have "(\<Sum>t<?c. entry U i t * S ! t * entry Vh t j) =
      entry (mm (mm (slice_cols_to U k) (diag (slice_to S k)))
        (transpose_t (slice_cols_to (transpose_t Vh) k))) i j"
    using assms ij by (simp add: entry_mm_diag_mm slice_index_less [of _ "length S" k])
  also have "(\<Sum>t<length S - ?c. entry U i (?c + t) * S ! (?c + t) * entry Vh (?c + t) j) =
      entry (mm (mm (slice_cols_from U k) (diag (drop ?c S)))
        (transpose_t (slice_cols_from (transpose_t Vh) k))) i j"
    using assms ij by (simp add: entry_mm_diag_mm)
  finally show "entry (mm (mm U (diag S)) Vh) i j =
      entry (zip2 (\<lambda>x y. x + y)
       (mm (mm (slice_cols_to U k) (diag (slice_to S k))) (transpose_t (slice_cols_to (transpose_t Vh) k)))
       (mm (mm (slice_cols_from U k) (diag (drop (slice_index (length S) k) S)))
           (transpose_t (slice_cols_from (transpose_t Vh) k)))) i j"
    using ij by simp
qed simp_all

text \<open>Two residual terms on the same bases differ by the term of the difference.\<close>

lemma residual_terms_diff:
  fixes P Q :: "'a::comm_ring tensor"
  assumes "ncols P = length xs" "length ys = length xs"
  shows "zip2 (\<lambda>x y. x - y) (mm (mm P (diag xs)) Q) (mm (mm P (diag ys)) Q) =
         mm (mm P (diag (map (\<lambda>t. xs ! t - ys ! t) [0..<length xs]))) Q"
proof (rule tensor_eqI)
  fix i j
  assume "i < nrows (zip2 (\<lambda>x y. x - y) (mm (mm P (diag xs)) Q) (mm (mm P (diag ys)) Q))"
    "j < ncols (zip2 (\<lambda>x y. x - y) (mm (mm P (diag xs)) Q) (mm (mm P (diag ys)) Q))"
  then have ij: "i < nrows P" "j < ncols Q"
    by simp_all
  show "entry (zip2 (\<lambda>x y. x - y) (mm (mm P (diag xs)) Q) (mm (mm P (diag ys)) Q)) i j =
        entry (mm (mm P (diag (map (\<lambda>t. xs ! t - ys ! t) [0..<length xs]))) Q) i j"
    using assms ij
    by (simp add: entry_mm_diag_mm sum_subtractf [symmetric] algebra_simps)
qed simp_all

lemma zip2_add_cancel:
  fixes P :: "'a::ab_group_add tensor"
  assumes "nrows Q = nrows P" "ncols Q = ncols P" "nrows R = nrows P" "ncols R = ncols P"
  shows "zip2 (\<lambda>x y. x - y) (zip2 (\<lambda>x y. x + y) P Q) (zip2 (\<lambda>x y. x + y) P R) =
         zip2 (\<lambda>x y. x - y) Q R"
  using assms by (simp add: zip2_def tab_eq_iff)

section \<open>Arithmetic of the special values\<close>

lemmas eval_val = plus_val_def minus_val_def times_val_def divide_val_def zero_val_def one_val_def
  val_signed_inf_def

lemma not_finite_add: "\<not> is_finite a \<Longrightarrow> \<not> is_finite (a + b) \<and> \<not> is_finite (b + a)"
  by (cases a; cases b) (simp_all add: is_finite_def plus_val_def)

lemma not_finite_mul: "\<not> is_finite a \<Longrightarrow> \<not> is_finite (a * b) \<and> \<not> is_finite (b * a)"
  by (cases a; cases b) (simp_all add: is_finite_def times_val_def val_signed_inf_def)

lemma not_finite_div_zero: "\<not> is_finite (divide a (0::val))"
  by (cases a) (simp_all add: is_finite_def divide_val_def zero_val_def val_signed_inf_def)

lemma div_zero_nan: "divide x (0::val) = NaN \<longleftrightarrow> x = 0 \<or> x = NaN"
  by (cases x) (simp_all add: divide_val_def zero_val_def val_signed_inf_def)

lemma div_zero_inf:
  "x \<noteq> 0 \<Longrightarrow> x \<noteq> NaN \<Longrightarrow> divide x (0::val) = PosInf \<or> divide x (0::val) = NegInf"
  by (cases x) (simp_all add: divide_val_def zero_val_def val_signed_inf_def)

lemma zero_div_zero: "divide (0::val) 0 = NaN"
  by (simp add: divide_val_def zero_val_def val_signed_inf_def)

lemma not_finite_sum:
  fixes f :: "nat \<Rightarrow> val"
  assumes "finite I" and "i \<in> I" and "\<not> is_finite (f i)"
  shows "\<not> is_finite (sum f I)"
proof -
  have "sum f I = f i + sum f (I - {i})"
    using assms(1,2) by (rule sum.remove)
  with assms(3) show ?thesis
    by (simp add: not_finite_add)
qed

lemma not_finite_spread:
  fixes U_l V_l W_k :: "val tensor"
  assumes "ncols U_l = length sigma" "ncols V_l = length sigma"
    and "nrows W_k = nrows U_l" "ncols W_k = nrows V_l"
    and "i < length sigma" "\<not> is_finite (sigma ! i)" "p < nrows U_l" "j < nrows V_l"
  shows "\<not> is_finite (entry (zip2 (\<lambda>x y. x + y) W_k
           (mm (mm U_l (diag sigma)) (transpose_t V_l))) p j)"
proof -
  let ?r = "length sigma"
  have "\<not> is_finite (entry U_l p i * sigma ! i)"
    using assms(6) by (simp add: not_finite_mul)
  then have "\<not> is_finite (\<Sum>s<?r. entry U_l p s * (if s = i then sigma ! s else 0))"
    using assms(5) by (intro not_finite_sum [where i = i]) simp_all
  then have "\<not> is_finite (entry (mm U_l (diag sigma)) p i)"
    using assms by simp
  then have "\<not> is_finite (entry (mm U_l (diag sigma)) p i * entry (transpose_t V_l) i j)"
    by (simp add: not_finite_mul)
  then have "\<not> is_finite (\<Sum>t<?r. entry (mm U_l (diag sigma)) p t * entry (transpose_t V_l) t j)"
    using assms(5) by (intro not_finite_sum [where i = i]) simp_all
  then have "\<not> is_finite (entry (mm (mm U_l (diag sigma)) (transpose_t V_l)) p j)"
    using assms by simp
  then show ?thesis
    using assms by (simp add: not_finite_add)
qed

section \<open>Finite tensors\<close>

lemma finite_tD: "finite_t T \<Longrightarrow> i < nrows T \<Longrightarrow> j < ncols T \<Longrightarrow> is_finite (entry T i j)"
  by (simp add: finite_t_def list_all_iff)

lemma finite_tI: "(\<And>i j. i < nrows T \<Longrightarrow> j < ncols T \<Longrightarrow> is_finite (entry T i j)) \<Longrightarrow> finite_t T"
  by (simp add: finite_t_def list_all_iff)

lemma is_finite_Finite [simp]: "is_finite (Finite a)"
  by (simp add: is_finite_def)

lemma Finite_real_of_val: "is_finite x \<Longrightarrow> Finite (real_of_val x) = x"
  by (cases x) (simp_all add: is_finite_def)

lemma shape_lift [simp]: "nrows (lift T) = nrows T" "ncols (lift T) = ncols T"
  by (simp_all add: lift_def)

lemma shape_unlift [simp]: "nrows (unlift T) = nrows T" "ncols (unlift T) = ncols T"
  by (simp_all add: unlift_def)

lemma entry_lift [simp]: "i < nrows T \<Longrightarrow> j < ncols T \<Longrightarrow> entry (lift T) i j = Finite (entry T i j)"
  by (simp add: lift_def)

lemma entry_unlift [simp]:
  "i < nrows T \<Longrightarrow> j < ncols T \<Longrightarrow> entry (unlift T) i j = real_of_val (entry T i j)"
  by (simp add: unlift_def)

lemma well_formed_lift [simp]: "well_formed (lift T)" "well_formed (unlift T')"
  by (simp_all add: lift_def unlift_def)

lemma finite_lift [simp]: "finite_t (lift T)"
  by (rule finite_tI) simp

lemma unlift_lift: "well_formed T \<Longrightarrow> unlift (lift T) = T"
  by (rule tensor_eqI) simp_all

lemma sum_Finite: "finite I \<Longrightarrow> (\<Sum>t\<in>I. Finite (f t)) = Finite (\<Sum>t\<in>I. f t)"
  by (induction I rule: finite_induct) (simp_all add: zero_val_def plus_val_def)

lemma Finite_mult: "Finite a * Finite b = Finite (a * b)"
  by (simp add: times_val_def)

text \<open>On finite tensors the product is the real product.\<close>

lemma mm_finite:
  assumes "finite_t A" "finite_t B" "ncols A = nrows B"
  shows "mm A B = lift (mm (unlift A) (unlift B))"
proof -
  have "(\<Sum>t<ncols A. entry A i t * entry B t j) =
        Finite (\<Sum>t<ncols A. real_of_val (entry A i t) * real_of_val (entry B t j))"
    if "i < nrows A" "j < ncols B" for i j
  proof -
    have "(\<Sum>t<ncols A. entry A i t * entry B t j) =
          (\<Sum>t<ncols A. Finite (real_of_val (entry A i t) * real_of_val (entry B t j)))"
    proof (rule sum.cong)
      fix t assume "t \<in> {..<ncols A}"
      then have t: "t < ncols A" "t < nrows B"
        using assms(3) by simp_all
      have "Finite (real_of_val (entry A i t)) = entry A i t"
        "Finite (real_of_val (entry B t j)) = entry B t j"
        using finite_tD [OF assms(1) that(1) t(1)] finite_tD [OF assms(2) t(2) that(2)]
        by (simp_all add: Finite_real_of_val)
      then show "entry A i t * entry B t j =
          Finite (real_of_val (entry A i t) * real_of_val (entry B t j))"
        by (simp add: Finite_mult [symmetric])
    qed simp
    then show ?thesis
      by (simp add: sum_Finite)
  qed
  then show ?thesis
    using assms(3) by (simp add: mm_def lift_def unlift_def tab_eq_iff)
qed

lemma unlift_transpose_t: "unlift (transpose_t T) = transpose_t (unlift T)"
  by (simp add: unlift_def transpose_t_def tab_eq_iff)

lemma finite_transpose_t: "finite_t T \<Longrightarrow> finite_t (transpose_t T)"
  by (rule finite_tI) (simp add: finite_tD)

lemma finite_slice_cols_from: "finite_t T \<Longrightarrow> finite_t (slice_cols_from T k)"
  by (rule finite_tI) (simp add: finite_tD)

lemma finite_slice_cols_to: "finite_t T \<Longrightarrow> finite_t (slice_cols_to T k)"
  by (rule finite_tI) (simp add: finite_tD slice_index_less [of _ "ncols T" k])

text \<open>The feature energy, grouped as the source groups it and as \<open>U\<^sup>T (X\<^sup>T X) U\<close>.\<close>

lemma energy_regroup:
  assumes "finite_t X" "finite_t P" "ncols X = nrows P"
  shows "mm (transpose_t P) (mm (transpose_t X) (mm X P)) =
         mm (mm (transpose_t P) (mm (transpose_t X) X)) P"
proof -
  let ?X = "unlift X" and ?P = "unlift P"
  note fin = assms(1,2) finite_transpose_t [OF assms(1)] finite_transpose_t [OF assms(2)]
  have XP: "mm X P = lift (mm ?X ?P)"
    using assms by (simp add: mm_finite)
  have XXP: "mm (transpose_t X) (mm X P) = lift (mm (transpose_t ?X) (mm ?X ?P))"
    unfolding XP by (simp add: mm_finite fin unlift_lift unlift_transpose_t)
  have lhs: "mm (transpose_t P) (mm (transpose_t X) (mm X P)) =
      lift (mm (transpose_t ?P) (mm (transpose_t ?X) (mm ?X ?P)))"
    unfolding XXP using assms(3) by (simp add: mm_finite fin unlift_lift unlift_transpose_t)
  have XX: "mm (transpose_t X) X = lift (mm (transpose_t ?X) ?X)"
    by (simp add: mm_finite fin unlift_transpose_t)
  have PXX: "mm (transpose_t P) (mm (transpose_t X) X) = lift (mm (transpose_t ?P) (mm (transpose_t ?X) ?X))"
    unfolding XX using assms(3) by (simp add: mm_finite fin unlift_lift unlift_transpose_t)
  have rhs: "mm (mm (transpose_t P) (mm (transpose_t X) X)) P =
      lift (mm (mm (transpose_t ?P) (mm (transpose_t ?X) ?X)) ?P)"
    unfolding PXX using assms(3) by (simp add: mm_finite fin unlift_lift)
  have "mm (mm (transpose_t ?P) (mm (transpose_t ?X) ?X)) ?P =
        mm (transpose_t ?P) (mm (transpose_t ?X) (mm ?X ?P))"
    using assms(3) by (simp add: mm_assoc)
  with lhs rhs show ?thesis
    by simp
qed

section \<open>The run on the store\<close>

lemma grows_bindS:
  assumes "grows m" and "\<And>x. grows (f x)"
  shows "grows (bindS m f)"
  unfolding grows_def
proof
  fix h
  from assms(1) obtain e1 where e1: "snd (m h) = h @ e1"
    unfolding grows_def by blast
  show "\<exists>ext. snd (bindS m f h) = h @ ext"
  proof (cases "m h")
    case (Pair res h')
    with e1 have h': "h' = h @ e1" by simp
    show ?thesis
    proof (cases res)
      case (Inl e)
      with Pair h' show ?thesis by (simp add: bindS_def)
    next
      case (Inr x)
      from assms(2) [of x] obtain e2 where "snd (f x h') = h' @ e2"
        unfolding grows_def by blast
      with Pair Inr h' show ?thesis by (simp add: bindS_def)
    qed
  qed
qed

lemma grows_new_tensor: "grows (new_tensor res)"
  by (cases res) (simp_all add: grows_def new_tensor_def alloc_def)

lemma grows_st_svd: "grows (st_svd svd w)"
  by (auto simp add: grows_def st_svd_def alloc_def split: prod.splits)

lemma grows_st_matmul: "grows (st_matmul a b)"
  by (auto simp add: grows_def st_matmul_def new_tensor_def alloc_def split: sum.splits)

lemma grows_st_sub: "grows (st_sub a b)"
  by (auto simp add: grows_def st_sub_def new_tensor_def alloc_def split: sum.splits)

lemma grows_st_add: "grows (st_add a b)"
  by (auto simp add: grows_def st_add_def new_tensor_def alloc_def split: sum.splits)

lemma grows_st_diag: "grows (st_diag xs)"
  by (auto simp add: grows_def st_diag_def new_tensor_def alloc_def)

lemma grows_pure:
  "grows (st_nrows a)" "grows (st_index2 b idx jdx)" "grows (st_vdiv ys zs)" "grows (returnS x)"
  by (simp_all add: grows_def st_nrows_def st_index2_def st_vdiv_def returnS_def)

lemmas grows_prims = grows_st_svd grows_st_matmul grows_st_sub grows_st_add grows_st_diag grows_pure

lemma grows_lip_st: "grows (lip_st svd W X Y k)"
  unfolding lip_st_def Let_def case_prod_beta
  by (intro grows_bindS grows_prims)

lemma deref_root [simp]: "deref h (TRef a []) = h ! a"
  by (simp add: deref_def)

lemma deref_view [simp]: "deref h (view r v) = apply_view (deref h r) v"
  by (simp add: deref_def view_def)

lemma base_view [simp]: "base (view r v) = base r"
  by (simp add: view_def)

lemma deref_append [simp]: "base r < length h \<Longrightarrow> deref (h @ ext) r = deref h r"
  by (simp add: deref_def nth_append)

lemma lip_st_refines:
  fixes svd :: "'a::{comm_monoid_add,times,minus,divide} svd_fun"
  assumes "base W < length h" "base X < length h" "base Y < length h"
  shows "(case lip_st svd W X Y k h of (res, h') \<Rightarrow> map_sum id (deref h') res) =
         lip svd (deref h W) (deref h X) (deref h Y) k"
  using assms
  unfolding lip_st_def lip_def lip_locals_def
  by (auto simp add: bindS_def bindE_def Let_def st_svd_def st_matmul_def st_sub_def st_add_def
      st_diag_def st_nrows_def st_index2_def st_vdiv_def returnS_def new_tensor_def alloc_def
      nth_append split: prod.splits sum.splits)

section \<open>Inner products and orthogonal families\<close>

lemma dot_commute: "dot n x y = dot n y x"
  by (simp add: dot_def mult.commute)

lemma dot_self_nonneg: "0 \<le> dot n x x"
  by (simp add: dot_def sum_nonneg)

lemma dot_self_zero:
  assumes "dot n x x = 0" and "i < n"
  shows "x i = 0"
proof -
  have "(\<Sum>i<n. x i * x i) = 0"
    using assms(1) by (simp add: dot_def)
  then have "\<forall>i\<in>{..<n}. x i * x i = 0"
    by (subst (asm) sum_nonneg_eq_0_iff) simp_all
  with assms(2) show ?thesis
    by simp
qed

lemma dot_zero_left:
  assumes "dot n x x = 0"
  shows "dot n x y = 0"
  unfolding dot_def
  by (rule sum.neutral) (simp add: dot_self_zero [OF assms])

text \<open>Bilinearity: the inner product of two linear combinations.\<close>

lemma dot_lincomb:
  "(\<Sum>i<n. (\<Sum>s<k. c s * e s i) * (\<Sum>t<m. d t * f t i)) =
   (\<Sum>s<k. \<Sum>t<m. c s * d t * dot n (e s) (f t))"
proof -
  have "(\<Sum>i<n. (\<Sum>s<k. c s * e s i) * (\<Sum>t<m. d t * f t i)) =
        (\<Sum>i<n. \<Sum>s<k. \<Sum>t<m. c s * d t * (e s i * f t i))"
    by (simp add: sum_product algebra_simps)
  also have "\<dots> = (\<Sum>s<k. \<Sum>i<n. \<Sum>t<m. c s * d t * (e s i * f t i))"
    by (rule sum.swap)
  also have "\<dots> = (\<Sum>s<k. \<Sum>t<m. \<Sum>i<n. c s * d t * (e s i * f t i))"
    by (rule sum.cong [OF refl]) (rule sum.swap)
  also have "\<dots> = (\<Sum>s<k. \<Sum>t<m. c s * d t * dot n (e s) (f t))"
    by (simp add: dot_def sum_distrib_left)
  finally show ?thesis .
qed

lemma dot_lincomb_right:
  "(\<Sum>i<n. x i * (\<Sum>t<k. c t * e t i)) = (\<Sum>t<k. c t * dot n (e t) x)"
proof -
  have "(\<Sum>i<n. x i * (\<Sum>t<k. c t * e t i)) = (\<Sum>i<n. \<Sum>t<k. c t * (e t i * x i))"
    by (simp add: sum_distrib_left algebra_simps)
  also have "\<dots> = (\<Sum>t<k. \<Sum>i<n. c t * (e t i * x i))"
    by (rule sum.swap)
  finally show ?thesis
    by (simp add: dot_def sum_distrib_left)
qed

lemma dot_lincomb_orthogonal:
  assumes "orthogonal_fam n k e"
  shows "(\<Sum>i<n. (\<Sum>s<k. c s * e s i) * (\<Sum>t<k. d t * e t i)) =
         (\<Sum>s<k. c s * d s * dot n (e s) (e s))"
proof -
  have "(\<Sum>t<k. c s * d t * dot n (e s) (e t)) = c s * d s * dot n (e s) (e s)" if "s < k" for s
  proof -
    have "(\<Sum>t<k. c s * d t * dot n (e s) (e t)) =
          (\<Sum>t<k. if t = s then c s * d s * dot n (e s) (e s) else 0)"
      using assms that by (intro sum.cong) (auto simp add: orthogonal_fam_def)
    also have "\<dots> = c s * d s * dot n (e s) (e s)"
      using that by (simp add: sum.delta)
    finally show ?thesis .
  qed
  then show ?thesis
    unfolding dot_lincomb by (intro sum.cong) simp_all
qed

text \<open>The squared distance of a vector to a combination of orthogonal vectors.\<close>

lemma distance_expand:
  assumes "orthogonal_fam n k e"
  shows "(\<Sum>i<n. (x i - (\<Sum>t<k. c t * e t i))\<^sup>2) =
         dot n x x - 2 * (\<Sum>t<k. c t * dot n (e t) x) + (\<Sum>t<k. (c t)\<^sup>2 * dot n (e t) (e t))"
proof -
  have "(\<Sum>i<n. (x i - (\<Sum>t<k. c t * e t i))\<^sup>2) =
        (\<Sum>i<n. x i * x i) - 2 * (\<Sum>i<n. x i * (\<Sum>t<k. c t * e t i)) +
        (\<Sum>i<n. (\<Sum>s<k. c s * e s i) * (\<Sum>t<k. c t * e t i))"
    by (simp add: power2_eq_square algebra_simps sum.distrib sum_subtractf sum_distrib_left)
  also have "(\<Sum>i<n. x i * x i) = dot n x x"
    by (simp add: dot_def)
  also have "(\<Sum>i<n. x i * (\<Sum>t<k. c t * e t i)) = (\<Sum>t<k. c t * dot n (e t) x)"
    by (rule dot_lincomb_right)
  also have "(\<Sum>i<n. (\<Sum>s<k. c s * e s i) * (\<Sum>t<k. c t * e t i)) =
      (\<Sum>s<k. c s * c s * dot n (e s) (e s))"
    by (rule dot_lincomb_orthogonal [OF assms])
  finally show ?thesis
    by (simp add: power2_eq_square)
qed

text \<open>The distance to the span is at least what the projections leave.\<close>

lemma distance_lower_bound:
  assumes "orthogonal_fam n k e" and "unit_or_zero n k e"
  shows "dot n x x - (\<Sum>t<k. (dot n (e t) x)\<^sup>2) \<le> (\<Sum>i<n. (x i - (\<Sum>t<k. c t * e t i))\<^sup>2)"
proof -
  have "- (dot n (e t) x)\<^sup>2 \<le> (c t)\<^sup>2 * dot n (e t) (e t) - 2 * (c t * dot n (e t) x)"
    if "t < k" for t
  proof -
    from assms(2) that consider "dot n (e t) (e t) = 0" | "dot n (e t) (e t) = 1"
      unfolding unit_or_zero_def by blast
    then show ?thesis
    proof cases
      case 1
      then show ?thesis
        by (simp add: dot_zero_left)
    next
      case 2
      have "0 \<le> (c t - dot n (e t) x)\<^sup>2"
        by simp
      then show ?thesis
        unfolding 2 by (simp add: power2_eq_square algebra_simps)
    qed
  qed
  then have "(\<Sum>t<k. - (dot n (e t) x)\<^sup>2) \<le>
      (\<Sum>t<k. (c t)\<^sup>2 * dot n (e t) (e t) - 2 * (c t * dot n (e t) x))"
    by (intro sum_mono) simp
  then show ?thesis
    unfolding distance_expand [OF assms(1)]
    by (simp add: sum_negf sum_subtractf sum_distrib_left)
qed

lemma bessel:
  assumes "orthogonal_fam n k e" and "unit_or_zero n k e"
  shows "(\<Sum>t<k. (dot n (e t) x)\<^sup>2) \<le> dot n x x"
proof -
  have eq: "(dot n (e t) x)\<^sup>2 * dot n (e t) (e t) - 2 * (dot n (e t) x * dot n (e t) x) =
      - (dot n (e t) x)\<^sup>2" if "t < k" for t
  proof -
    from assms(2) that consider "dot n (e t) (e t) = 0" | "dot n (e t) (e t) = 1"
      unfolding unit_or_zero_def by blast
    then show ?thesis
    proof cases
      case 1
      then show ?thesis
        by (simp add: dot_zero_left)
    next
      case 2
      then show ?thesis
        by (simp add: power2_eq_square)
    qed
  qed
  have "0 \<le> (\<Sum>i<n. (x i - (\<Sum>t<k. dot n (e t) x * e t i))\<^sup>2)"
    by (simp add: sum_nonneg)
  also have "\<dots> = dot n x x + (\<Sum>t<k. (dot n (e t) x)\<^sup>2 * dot n (e t) (e t) -
      2 * (dot n (e t) x * dot n (e t) x))"
    unfolding distance_expand [OF assms(1)]
    by (simp add: sum_subtractf sum_distrib_left)
  also have "(\<Sum>t<k. (dot n (e t) x)\<^sup>2 * dot n (e t) (e t) -
      2 * (dot n (e t) x * dot n (e t) x)) = (\<Sum>t<k. - (dot n (e t) x)\<^sup>2)"
    by (rule sum.cong) (simp_all add: eq)
  finally show ?thesis
    by (simp add: sum_negf)
qed

lemma orthonormal_fam_imp:
  assumes "orthonormal_fam n k e"
  shows "orthogonal_fam n k e" "unit_or_zero n k e"
  using assms by (simp_all add: orthonormal_fam_def orthogonal_fam_def unit_or_zero_def)

text \<open>The squared length of a combination of orthonormal vectors.\<close>

lemma parseval:
  assumes "orthonormal_fam n k e"
  shows "(\<Sum>i<n. (\<Sum>s<k. b s * e s i)\<^sup>2) = (\<Sum>s<k. (b s)\<^sup>2)"
proof -
  have "(\<Sum>i<n. (\<Sum>s<k. b s * e s i)\<^sup>2) =
        (\<Sum>i<n. (\<Sum>s<k. b s * e s i) * (\<Sum>t<k. b t * e t i))"
    by (simp add: power2_eq_square)
  also have "\<dots> = (\<Sum>s<k. b s * b s * dot n (e s) (e s))"
    by (rule dot_lincomb_orthogonal [OF orthonormal_fam_imp(1) [OF assms]])
  also have "\<dots> = (\<Sum>s<k. (b s)\<^sup>2)"
    using assms by (intro sum.cong) (simp_all add: orthonormal_fam_def power2_eq_square)
  finally show ?thesis .
qed

text \<open>
  Weights between zero and one that sum to at most \<open>k\<close> cannot collect more of a
  descending non-negative sequence than its first \<open>k\<close> terms.
\<close>

lemma weighted_sum_bound:
  fixes g c :: "nat \<Rightarrow> real"
  assumes anti: "\<And>s t. s \<le> t \<Longrightarrow> t < m \<Longrightarrow> g t \<le> g s"
    and nonneg: "\<And>s. s < m \<Longrightarrow> 0 \<le> g s"
    and c: "\<And>s. s < m \<Longrightarrow> 0 \<le> c s \<and> c s \<le> 1"
    and total: "(\<Sum>s<m. c s) \<le> real k" and k: "k \<le> m"
  shows "(\<Sum>s<m. g s * c s) \<le> (\<Sum>s<k. g s)"
proof -
  define y where "y = (if k < m then g k else 0)"
  have y0: "0 \<le> y"
    by (simp add: y_def nonneg)
  have above: "y \<le> g s" if "s < k" for s
    using that k anti [of s k] nonneg [of s] by (auto simp add: y_def)
  have below: "g s \<le> y" if "k \<le> s" "s < m" for s
    using that anti [of k s] by (auto simp add: y_def)
  have "(g s - y) * c s \<le> (if s < k then g s - y else 0)" if "s < m" for s
  proof (cases "s < k")
    case True
    have "(g s - y) * c s \<le> (g s - y) * 1"
      using above [OF True] c [OF that] by (intro mult_left_mono) simp_all
    with True show ?thesis by simp
  next
    case False
    then have "g s - y \<le> 0"
      using below [of s] that by simp
    then have "(g s - y) * c s \<le> 0"
      using c [OF that] by (simp add: mult_nonpos_nonneg)
    with False show ?thesis by simp
  qed
  then have "(\<Sum>s<m. (g s - y) * c s) \<le> (\<Sum>s<m. if s < k then g s - y else 0)"
    by (intro sum_mono) simp
  also have "\<dots> = (\<Sum>s<k. g s - y)"
  proof -
    have "(\<Sum>s<m. if s < k then g s - y else 0) = (\<Sum>s\<in>{..<m} \<inter> {s. s < k}. g s - y)"
      by (simp add: sum.inter_restrict)
    also have "{..<m} \<inter> {s. s < k} = {..<k}"
      using k by auto
    finally show ?thesis .
  qed
  finally have "(\<Sum>s<m. g s * c s) - y * (\<Sum>s<m. c s) \<le> (\<Sum>s<k. g s) - y * real k"
    by (simp add: algebra_simps sum_subtractf sum_distrib_left)
  moreover have "y * (\<Sum>s<m. c s) \<le> y * real k"
    using total y0 by (rule mult_left_mono)
  ultimately show ?thesis
    by simp
qed

text \<open>
  Every family of vectors lies in the span of an orthogonal family of the same size
  whose members have length one or zero.
\<close>

lemma orthogonalise:
  "\<exists>e r. orthogonal_fam n k e \<and> unit_or_zero n k e \<and>
      (\<forall>t<k. \<forall>i<n. p t i = (\<Sum>s<k. r s t * e s i))"
proof (induction k)
  case 0
  show ?case
    by (simp add: orthogonal_fam_def unit_or_zero_def)
next
  case (Suc k)
  then obtain e r where orth: "orthogonal_fam n k e" and unit: "unit_or_zero n k e"
    and span: "\<And>t i. t < k \<Longrightarrow> i < n \<Longrightarrow> p t i = (\<Sum>s<k. r s t * e s i)"
    by blast
  define a where "a s = dot n (e s) (p k)" for s
  define d where "d i = p k i - (\<Sum>s<k. a s * e s i)" for i
  define N where "N = dot n d d"
  define f where "f i = (if N = 0 then 0 else d i / sqrt N)" for i
  define e' where "e' t = (if t = k then f else e t)" for t
  define r' where "r' s t = (if t = k then (if s = k then sqrt N else a s)
      else (if s = k then 0 else r s t))" for s t
  have N0: "0 \<le> N"
    unfolding N_def by (rule dot_self_nonneg)
  have ed: "dot n (e s) d = 0" if "s < k" for s
  proof -
    have "dot n (e s) d = (\<Sum>i<n. e s i * p k i) - (\<Sum>i<n. e s i * (\<Sum>t<k. a t * e t i))"
      by (simp add: dot_def d_def algebra_simps sum_subtractf)
    also have "(\<Sum>i<n. e s i * (\<Sum>t<k. a t * e t i)) = (\<Sum>t<k. a t * dot n (e t) (e s))"
      by (rule dot_lincomb_right)
    also have "\<dots> = (\<Sum>t<k. if t = s then a s * dot n (e s) (e s) else 0)"
      using orth that by (intro sum.cong) (auto simp add: orthogonal_fam_def)
    also have "\<dots> = a s * dot n (e s) (e s)"
      using that by (simp add: sum.delta)
    finally have *: "dot n (e s) d = a s - a s * dot n (e s) (e s)"
      by (simp add: a_def dot_def)
    from unit that consider "dot n (e s) (e s) = 0" | "dot n (e s) (e s) = 1"
      unfolding unit_or_zero_def by blast
    then show ?thesis
    proof cases
      case 1
      then have "a s = 0"
        unfolding a_def by (rule dot_zero_left)
      with * show ?thesis by simp
    next
      case 2
      with * show ?thesis by simp
    qed
  qed
  have ef: "dot n (e s) f = 0" if "s < k" for s
  proof -
    have "dot n (e s) f = (if N = 0 then 0 else dot n (e s) d / sqrt N)"
      by (simp add: dot_def f_def sum_divide_distrib)
    with ed [OF that] show ?thesis by simp
  qed
  have ff: "dot n f f = (if N = 0 then 0 else 1)"
  proof (cases "N = 0")
    case True
    then show ?thesis by (simp add: dot_def f_def)
  next
    case False
    have "dot n f f = (\<Sum>i<n. d i * d i) / (sqrt N * sqrt N)"
      using False by (simp add: dot_def f_def sum_divide_distrib)
    also have "\<dots> = N / N"
      using N0 by (simp add: N_def dot_def)
    finally show ?thesis
      using False by simp
  qed
  have "orthogonal_fam n (Suc k) e'"
    unfolding orthogonal_fam_def
  proof (intro allI impI)
    fix s t assume st: "s < Suc k" "t < Suc k" "s \<noteq> t"
    show "dot n (e' s) (e' t) = 0"
    proof (cases "s = k")
      case True
      with st have "t < k" by simp
      with True ef [of t] show ?thesis
        by (simp add: e'_def dot_commute [of n f])
    next
      case False
      with st have s: "s < k" by simp
      show ?thesis
      proof (cases "t = k")
        case True
        with s ef [of s] show ?thesis by (simp add: e'_def)
      next
        case False
        with st have "t < k" by simp
        with s st(3) orth show ?thesis
          by (simp add: e'_def orthogonal_fam_def)
      qed
    qed
  qed
  moreover have "unit_or_zero n (Suc k) e'"
    unfolding unit_or_zero_def
  proof (intro allI impI)
    fix t assume "t < Suc k"
    then consider "t = k" | "t < k" by linarith
    then show "dot n (e' t) (e' t) = 0 \<or> dot n (e' t) (e' t) = 1"
    proof cases
      case 1
      then show ?thesis by (simp add: e'_def ff)
    next
      case 2
      with unit show ?thesis by (simp add: e'_def unit_or_zero_def)
    qed
  qed
  moreover have "p t i = (\<Sum>s<Suc k. r' s t * e' s i)" if "t < Suc k" "i < n" for t i
  proof (cases "t = k")
    case True
    have "sqrt N * f i = d i"
    proof (cases "N = 0")
      case True
      then have "d i = 0"
        unfolding N_def using that(2) by (rule dot_self_zero)
      with True show ?thesis by (simp add: f_def)
    next
      case False
      with N0 show ?thesis by (simp add: f_def)
    qed
    moreover have "(\<Sum>s<k. r' s k * e' s i) = (\<Sum>s<k. a s * e s i)"
      by (rule sum.cong) (simp_all add: r'_def e'_def)
    ultimately show ?thesis
      using True by (simp add: r'_def e'_def d_def)
  next
    case False
    with that have t: "t < k" by simp
    have "(\<Sum>s<k. r' s t * e' s i) = (\<Sum>s<k. r s t * e s i)"
      using False by (intro sum.cong) (simp_all add: r'_def e'_def)
    with span [OF t that(2)] False show ?thesis
      by (simp add: r'_def)
  qed
  ultimately show ?case
    by blast
qed

section \<open>The best approximation of rank k\<close>

lemma energy_along:
  assumes "orthonormal_fam l m v"
  shows "(\<Sum>j<l. (\<Sum>i<q. x i * svd_sum m u a v i j)\<^sup>2) = (\<Sum>s<m. (a s * dot q (u s) x)\<^sup>2)"
proof -
  have "(\<Sum>i<q. x i * svd_sum m u a v i j) = (\<Sum>s<m. (a s * dot q (u s) x) * v s j)" for j
  proof -
    have "(\<Sum>i<q. x i * svd_sum m u a v i j) = (\<Sum>i<q. \<Sum>s<m. a s * v s j * (u s i * x i))"
      by (simp add: svd_sum_def sum_distrib_left algebra_simps)
    also have "\<dots> = (\<Sum>s<m. \<Sum>i<q. a s * v s j * (u s i * x i))"
      by (rule sum.swap)
    also have "\<dots> = (\<Sum>s<m. (a s * dot q (u s) x) * v s j)"
      by (simp add: dot_def sum_distrib_left algebra_simps)
    finally show ?thesis .
  qed
  then show ?thesis
    by (simp add: parseval [OF assms])
qed

lemma energy_total:
  assumes "orthonormal_fam q m u" and "orthonormal_fam l m v"
  shows "(\<Sum>i<q. \<Sum>j<l. (svd_sum m u a v i j)\<^sup>2) = (\<Sum>s<m. (a s)\<^sup>2)"
proof -
  have "(\<Sum>j<l. (svd_sum m u a v i j)\<^sup>2) = (\<Sum>s<m. (u s i * a s)\<^sup>2)" for i
    unfolding svd_sum_def by (rule parseval [OF assms(2)])
  then have "(\<Sum>i<q. \<Sum>j<l. (svd_sum m u a v i j)\<^sup>2) = (\<Sum>i<q. \<Sum>s<m. (u s i * a s)\<^sup>2)"
    by simp
  also have "\<dots> = (\<Sum>s<m. \<Sum>i<q. (u s i * a s)\<^sup>2)"
    by (rule sum.swap)
  also have "\<dots> = (\<Sum>s<m. (a s)\<^sup>2 * dot q (u s) (u s))"
    by (simp add: dot_def sum_distrib_left power2_eq_square algebra_simps)
  also have "\<dots> = (\<Sum>s<m. (a s)\<^sup>2)"
    using assms(1) by (intro sum.cong) (simp_all add: orthonormal_fam_def)
  finally show ?thesis .
qed

lemma approximation_bound_orthogonal:
  assumes ou: "orthonormal_fam q m u" and ov: "orthonormal_fam l m v"
    and anti: "\<And>s t. s \<le> t \<Longrightarrow> t < m \<Longrightarrow> a t \<le> a s"
    and nonneg: "\<And>s. s < m \<Longrightarrow> 0 \<le> a s"
    and k: "k \<le> m"
    and oe: "orthogonal_fam q k e" and ue: "unit_or_zero q k e"
  shows "(\<Sum>s<m. (a s)\<^sup>2) - (\<Sum>s<k. (a s)\<^sup>2) \<le>
         (\<Sum>i<q. \<Sum>j<l. (svd_sum m u a v i j - (\<Sum>t<k. e t i * C t j))\<^sup>2)"
proof -
  let ?W = "svd_sum m u a v"
  define c where "c s = (\<Sum>t<k. (dot q (u s) (e t))\<^sup>2)" for s
  have c01: "0 \<le> c s \<and> c s \<le> 1" if "s < m" for s
  proof -
    have "c s = (\<Sum>t<k. (dot q (e t) (u s))\<^sup>2)"
      unfolding c_def by (simp add: dot_commute)
    also have "\<dots> \<le> dot q (u s) (u s)"
      by (rule bessel [OF oe ue])
    also have "\<dots> = 1"
      using ou that by (simp add: orthonormal_fam_def)
    finally have "c s \<le> 1" .
    moreover have "0 \<le> c s"
      unfolding c_def by (simp add: sum_nonneg)
    ultimately show ?thesis by simp
  qed
  have csum: "(\<Sum>s<m. c s) \<le> real k"
  proof -
    have "(\<Sum>s<m. c s) = (\<Sum>t<k. \<Sum>s<m. (dot q (u s) (e t))\<^sup>2)"
      unfolding c_def by (rule sum.swap)
    also have "\<dots> \<le> (\<Sum>t<k. dot q (e t) (e t))"
      by (intro sum_mono bessel orthonormal_fam_imp [OF ou])
    also have "\<dots> \<le> (\<Sum>t<k. 1)"
      using ue by (intro sum_mono) (auto simp add: unit_or_zero_def)
    finally show ?thesis by simp
  qed
  have sq_anti: "(a t)\<^sup>2 \<le> (a s)\<^sup>2" if "s \<le> t" "t < m" for s t
    using anti [OF that] nonneg [OF that(2)] by (intro power_mono) simp_all
  have weighted: "(\<Sum>s<m. (a s)\<^sup>2 * c s) \<le> (\<Sum>s<k. (a s)\<^sup>2)"
    by (rule weighted_sum_bound [OF sq_anti _ c01 csum k]) simp_all
  have col: "dot q (\<lambda>i. ?W i j) (\<lambda>i. ?W i j) - (\<Sum>t<k. (dot q (e t) (\<lambda>i. ?W i j))\<^sup>2) \<le>
      (\<Sum>i<q. (?W i j - (\<Sum>t<k. e t i * C t j))\<^sup>2)" for j
    using distance_lower_bound [OF oe ue, of "\<lambda>i. ?W i j" "\<lambda>t. C t j"]
    by (simp add: mult.commute)
  have "(\<Sum>j<l. dot q (\<lambda>i. ?W i j) (\<lambda>i. ?W i j)) = (\<Sum>s<m. (a s)\<^sup>2)"
  proof -
    have "(\<Sum>j<l. dot q (\<lambda>i. ?W i j) (\<lambda>i. ?W i j)) = (\<Sum>j<l. \<Sum>i<q. (?W i j)\<^sup>2)"
      by (simp add: dot_def power2_eq_square)
    also have "\<dots> = (\<Sum>i<q. \<Sum>j<l. (?W i j)\<^sup>2)"
      by (rule sum.swap)
    finally show ?thesis
      by (simp add: energy_total [OF ou ov])
  qed
  moreover have "(\<Sum>j<l. \<Sum>t<k. (dot q (e t) (\<lambda>i. ?W i j))\<^sup>2) = (\<Sum>s<m. (a s)\<^sup>2 * c s)"
  proof -
    have "(\<Sum>j<l. \<Sum>t<k. (dot q (e t) (\<lambda>i. ?W i j))\<^sup>2) =
          (\<Sum>t<k. \<Sum>j<l. (\<Sum>i<q. e t i * ?W i j)\<^sup>2)"
      unfolding dot_def by (rule sum.swap)
    also have "\<dots> = (\<Sum>t<k. \<Sum>s<m. (a s * dot q (u s) (e t))\<^sup>2)"
      by (simp add: energy_along [OF ov])
    also have "\<dots> = (\<Sum>s<m. \<Sum>t<k. (a s * dot q (u s) (e t))\<^sup>2)"
      by (rule sum.swap)
    also have "\<dots> = (\<Sum>s<m. (a s)\<^sup>2 * c s)"
      by (simp add: c_def sum_distrib_left power_mult_distrib)
    finally show ?thesis .
  qed
  ultimately have "(\<Sum>s<m. (a s)\<^sup>2) - (\<Sum>s<m. (a s)\<^sup>2 * c s) =
      (\<Sum>j<l. dot q (\<lambda>i. ?W i j) (\<lambda>i. ?W i j) - (\<Sum>t<k. (dot q (e t) (\<lambda>i. ?W i j))\<^sup>2))"
    by (simp add: sum_subtractf)
  also have "\<dots> \<le> (\<Sum>j<l. \<Sum>i<q. (?W i j - (\<Sum>t<k. e t i * C t j))\<^sup>2)"
    by (intro sum_mono col)
  also have "\<dots> = (\<Sum>i<q. \<Sum>j<l. (?W i j - (\<Sum>t<k. e t i * C t j))\<^sup>2)"
    by (rule sum.swap)
  finally show ?thesis
    using weighted by simp
qed

text \<open>Eckart and Young: no product of a \<open>q \<times> k\<close> and a \<open>k \<times> l\<close> matrix is closer.\<close>

lemma approximation_bound:
  assumes ou: "orthonormal_fam q m u" and ov: "orthonormal_fam l m v"
    and anti: "\<And>s t. s \<le> t \<Longrightarrow> t < m \<Longrightarrow> a t \<le> a s"
    and nonneg: "\<And>s. s < m \<Longrightarrow> 0 \<le> a s"
    and k: "k \<le> m"
  shows "(\<Sum>s<m. (a s)\<^sup>2) - (\<Sum>s<k. (a s)\<^sup>2) \<le>
         (\<Sum>i<q. \<Sum>j<l. (svd_sum m u a v i j - (\<Sum>t<k. P t i * Q t j))\<^sup>2)"
proof -
  from orthogonalise [of q k P] obtain e r where oe: "orthogonal_fam q k e"
    and ue: "unit_or_zero q k e"
    and span: "\<And>t i. t < k \<Longrightarrow> i < q \<Longrightarrow> P t i = (\<Sum>s<k. r s t * e s i)"
    by blast
  define C where "C s j = (\<Sum>t<k. r s t * Q t j)" for s j
  have "(\<Sum>t<k. P t i * Q t j) = (\<Sum>s<k. e s i * C s j)" if "i < q" for i j
  proof -
    have "(\<Sum>t<k. P t i * Q t j) = (\<Sum>t<k. \<Sum>s<k. e s i * (r s t * Q t j))"
    proof (rule sum.cong [OF refl])
      fix t assume "t \<in> {..<k}"
      then have "P t i * Q t j = (\<Sum>s<k. r s t * e s i) * Q t j"
        using that by (simp add: span)
      also have "\<dots> = (\<Sum>s<k. e s i * (r s t * Q t j))"
        unfolding sum_distrib_right by (rule sum.cong) simp_all
      finally show "P t i * Q t j = (\<Sum>s<k. e s i * (r s t * Q t j))" .
    qed
    also have "\<dots> = (\<Sum>s<k. \<Sum>t<k. e s i * (r s t * Q t j))"
      by (rule sum.swap)
    finally show ?thesis
      by (simp add: C_def sum_distrib_left)
  qed
  then have "(\<Sum>i<q. \<Sum>j<l. (svd_sum m u a v i j - (\<Sum>t<k. P t i * Q t j))\<^sup>2) =
      (\<Sum>i<q. \<Sum>j<l. (svd_sum m u a v i j - (\<Sum>s<k. e s i * C s j))\<^sup>2)"
    by (intro sum.cong) simp_all
  with approximation_bound_orthogonal [OF ou ov anti nonneg k oe ue, where C = C]
  show ?thesis
    by simp
qed

text \<open>The truncation attains the bound.\<close>

lemma truncation_distance:
  assumes ou: "orthonormal_fam q m u" and ov: "orthonormal_fam l m v" and k: "k \<le> m"
  shows "(\<Sum>i<q. \<Sum>j<l. (svd_sum m u a v i j - svd_sum k u a v i j)\<^sup>2) =
         (\<Sum>s<m. (a s)\<^sup>2) - (\<Sum>s<k. (a s)\<^sup>2)"
proof -
  define b where "b s = (if s < k then 0 else a s)" for s
  have "svd_sum m u a v i j - svd_sum k u a v i j = svd_sum m u b v i j" for i j
  proof -
    have "svd_sum m u a v i j = svd_sum k u a v i j + (\<Sum>s<m - k. u (k + s) i * a (k + s) * v (k + s) j)"
      unfolding svd_sum_def by (rule sum_split_at [OF k])
    moreover have "svd_sum m u b v i j =
        (\<Sum>s<k. u s i * b s * v s j) + (\<Sum>s<m - k. u (k + s) i * b (k + s) * v (k + s) j)"
      unfolding svd_sum_def by (rule sum_split_at [OF k])
    ultimately show ?thesis
      by (simp add: b_def)
  qed
  then have "(\<Sum>i<q. \<Sum>j<l. (svd_sum m u a v i j - svd_sum k u a v i j)\<^sup>2) = (\<Sum>s<m. (b s)\<^sup>2)"
    by (simp add: energy_total [OF ou ov])
  also have "\<dots> = (\<Sum>s<k. (b s)\<^sup>2) + (\<Sum>s<m - k. (b (k + s))\<^sup>2)"
    by (rule sum_split_at [OF k])
  also have "\<dots> = (\<Sum>s<m - k. (a (k + s))\<^sup>2)"
    by (simp add: b_def)
  also have "\<dots> = (\<Sum>s<m. (a s)\<^sup>2) - (\<Sum>s<k. (a s)\<^sup>2)"
    using sum_split_at [OF k, of "\<lambda>s. (a s)\<^sup>2"] by simp
  finally show ?thesis .
qed

lemma svd_sortedD:
  assumes "svd_sorted svd W" and "svd W = (U, S, Vh)"
  shows "s \<le> t \<Longrightarrow> t < length S \<Longrightarrow> S ! t \<le> S ! s" "s < length S \<Longrightarrow> 0 \<le> S ! s"
proof -
  from assms have sorted: "sorted_wrt (\<lambda>x y. y \<le> x) S" and nonneg: "list_all (\<lambda>x. 0 \<le> x) S"
    by (simp_all add: svd_sorted_def)
  show "S ! t \<le> S ! s" if "s \<le> t" "t < length S"
  proof (cases "s = t")
    case True
    then show ?thesis by simp
  next
    case False
    with that have "s < t" by simp
    from sorted_wrt_nth_less [OF sorted this that(2)] show ?thesis .
  qed
  show "0 \<le> S ! s" if "s < length S"
    using nonneg that by (simp add: list_all_length)
qed

lemma orthonormal_cols:
  fixes U :: "real tensor"
  assumes "mm (transpose_t U) U = eye (ncols U)"
  shows "orthonormal_fam (nrows U) (ncols U) (\<lambda>s i. entry U i s)"
  unfolding orthonormal_fam_def dot_def
proof (intro allI impI)
  fix s t assume st: "s < ncols U" "t < ncols U"
  then have "entry (mm (transpose_t U) U) s t = (\<Sum>i<nrows U. entry U i s * entry U i t)"
    by simp
  with st show "(\<Sum>i<nrows U. entry U i s * entry U i t) = (if s = t then 1 else 0)"
    by (simp add: assms)
qed

lemma orthonormal_rows:
  fixes Vh :: "real tensor"
  assumes "mm Vh (transpose_t Vh) = eye (nrows Vh)"
  shows "orthonormal_fam (ncols Vh) (nrows Vh) (entry Vh)"
  unfolding orthonormal_fam_def dot_def
proof (intro allI impI)
  fix s t assume st: "s < nrows Vh" "t < nrows Vh"
  then have "entry (mm Vh (transpose_t Vh)) s t = (\<Sum>j<ncols Vh. entry Vh s j * entry Vh t j)"
    by simp
  with st show "(\<Sum>j<ncols Vh. entry Vh s j * entry Vh t j) = (if s = t then 1 else 0)"
    by (simp add: assms)
qed

lemma frobenius_diff:
  assumes "nrows B = nrows A" "ncols B = ncols A"
  shows "frobenius (zip2 (\<lambda>x y. x - y) A B) =
         sqrt (\<Sum>i<nrows A. \<Sum>j<ncols A. (entry A i j - entry B i j)\<^sup>2)"
  by (simp add: frobenius_def)

lemma lift_unlift: "well_formed T \<Longrightarrow> finite_t T \<Longrightarrow> lift (unlift T) = T"
  by (rule tensor_eqI) (simp_all add: Finite_real_of_val finite_tD)

lemma unlift_slice_cols_to: "unlift (slice_cols_to T k) = slice_cols_to (unlift T) k"
  by (simp add: unlift_def slice_cols_to_def tab_eq_iff slice_index_less [of _ "ncols T" k])

lemma unlift_slice_cols_from: "unlift (slice_cols_from T k) = slice_cols_from (unlift T) k"
  by (simp add: unlift_def slice_cols_from_def Let_def tab_eq_iff)

lemma unlift_diag: "unlift (diag xs) = diag (map real_of_val xs)"
  by (simp add: unlift_def diag_def tab_eq_iff zero_val_def)

lemma finite_diag: "list_all is_finite xs \<Longrightarrow> finite_t (diag xs)"
  by (rule finite_tI) (simp add: list_all_length zero_val_def)

lemma slice_to_map: "map f (slice_to xs k) = slice_to (map f xs) k"
  by (simp add: slice_to_def take_map)

lemma list_all_slice_to: "list_all P xs \<Longrightarrow> list_all P (slice_to xs k)"
  by (auto simp add: slice_to_def list_all_iff dest: in_set_takeD)

lemma finite_mm:
  assumes "finite_t A" "finite_t B" "ncols A = nrows B"
  shows "finite_t (mm A B)"
  unfolding mm_finite [OF assms] by simp

lemma zip2_minus_finite:
  assumes "finite_t A" "finite_t B" "nrows B = nrows A" "ncols B = ncols A"
  shows "zip2 (\<lambda>x y. x - y) A B = lift (zip2 (\<lambda>x y. x - y) (unlift A) (unlift B))"
proof -
  have "entry A i j - entry B i j = Finite (real_of_val (entry A i j) - real_of_val (entry B i j))"
    if "i < nrows A" "j < ncols A" for i j
  proof -
    have "is_finite (entry A i j)" "is_finite (entry B i j)"
      using that assms by (simp_all add: finite_tD)
    then show ?thesis
      by (cases "entry A i j"; cases "entry B i j") (simp_all add: is_finite_def minus_val_def)
  qed
  then show ?thesis
    using assms(3,4) by (simp add: zip2_def lift_def unlift_def tab_eq_iff)
qed

lemma zip2_plus_finite:
  assumes "finite_t A" "finite_t B" "nrows B = nrows A" "ncols B = ncols A"
  shows "zip2 (\<lambda>x y. x + y) A B = lift (zip2 (\<lambda>x y. x + y) (unlift A) (unlift B))"
proof -
  have "entry A i j + entry B i j = Finite (real_of_val (entry A i j) + real_of_val (entry B i j))"
    if "i < nrows A" "j < ncols A" for i j
  proof -
    have "is_finite (entry A i j)" "is_finite (entry B i j)"
      using that assms by (simp_all add: finite_tD)
    then show ?thesis
      by (cases "entry A i j"; cases "entry B i j") (simp_all add: is_finite_def plus_val_def)
  qed
  then show ?thesis
    using assms(3,4) by (simp add: zip2_def lift_def unlift_def tab_eq_iff)
qed

lemma divide_finite: "b \<noteq> 0 \<Longrightarrow> divide (Finite a) (Finite b) = Finite (a / b)"
  by (simp add: divide_val_def)

lemma lift_inject:
  assumes "well_formed A" "well_formed B" "lift A = lift B"
  shows "A = B"
proof -
  have "A = unlift (lift A)"
    by (simp only: unlift_lift [OF assms(1)])
  also have "\<dots> = unlift (lift B)"
    by (simp only: assms(3))
  also have "\<dots> = B"
    by (rule unlift_lift [OF assms(2)])
  finally show ?thesis .
qed

lemma lift_diag: "lift (diag xs) = diag (map Finite xs)"
  by (simp add: lift_def diag_def tab_eq_iff zero_val_def)

lemma lift_zeros: "lift (zeros n m) = zeros n m"
  by (simp add: lift_def zeros_def tab_eq_iff zero_val_def)

lemma lift_eye: "lift (eye n) = eye n"
  by (simp add: lift_def eye_def tab_eq_iff zero_val_def one_val_def)

lemma lift_transpose_t: "lift (transpose_t T) = transpose_t (lift T)"
  by (simp add: lift_def transpose_t_def tab_eq_iff)

lemma mm_lift:
  assumes "ncols A = nrows B" "well_formed A" "well_formed B"
  shows "mm (lift A) (lift B) = lift (mm A B)"
  using assms by (simp add: mm_finite unlift_lift)

section \<open>Exact arithmetic on finite inputs\<close>

lemma unlift_mm:
  assumes "finite_t A" "finite_t B" "ncols A = nrows B"
  shows "unlift (mm A B) = mm (unlift A) (unlift B)"
  unfolding mm_finite [OF assms] by (simp add: unlift_lift)

lemma finite_zip2_minus:
  assumes "finite_t A" "finite_t B" "nrows B = nrows A" "ncols B = ncols A"
  shows "finite_t (zip2 (\<lambda>x y. x - y) A B)"
  unfolding zip2_minus_finite [OF assms] by simp

lemma unlift_zip2_minus:
  assumes "finite_t A" "finite_t B" "nrows B = nrows A" "ncols B = ncols A"
  shows "unlift (zip2 (\<lambda>x y. x - y) A B) = zip2 (\<lambda>x y. x - y) (unlift A) (unlift B)"
  unfolding zip2_minus_finite [OF assms] by (simp add: unlift_lift)

lemma finite_zip2_plus:
  assumes "finite_t A" "finite_t B" "nrows B = nrows A" "ncols B = ncols A"
  shows "finite_t (zip2 (\<lambda>x y. x + y) A B)"
  unfolding zip2_plus_finite [OF assms] by simp

lemma unlift_zip2_plus:
  assumes "finite_t A" "finite_t B" "nrows B = nrows A" "ncols B = ncols A"
  shows "unlift (zip2 (\<lambda>x y. x + y) A B) = zip2 (\<lambda>x y. x + y) (unlift A) (unlift B)"
  unfolding zip2_plus_finite [OF assms] by (simp add: unlift_lift)

lemma nondegenerateD:
  assumes "nondegenerate svd W X k" and "svd W = (U, S, Vh)" and "i < ncols (slice_cols_from U k)"
  shows "entry (mm (transpose_t (slice_cols_from U k))
           (mm (transpose_t X) (mm X (slice_cols_from U k)))) i i \<noteq> 0"
  using assms by (simp add: nondegenerate_def Let_def list_all_length)

text \<open>
  On finite inputs with no zero feature energy, the run over the scalars with special
  values is the run in exact real arithmetic: every local variable is finite and reads
  as the corresponding variable of the real run.
\<close>

lemma lip_locals_finite:
  fixes svd :: "val svd_fun" and svd' :: "real svd_fun"
  assumes svd: "svd W = (U, S, Vh)"
    and svd': "svd' W' = (unlift U, map real_of_val S, unlift Vh)"
    and shapes: "ncols U = length S" "nrows Vh = length S"
      "ncols X = nrows U" "nrows Y = nrows X" "ncols Y = ncols Vh"
    and fin: "finite_t U" "list_all is_finite S" "finite_t Vh" "finite_t X" "finite_t Y"
    and nd: "nondegenerate svd W X k"
  obtains (runs) vs vs' where
    "lip_locals svd W X Y k = Inr vs"
    "lip_locals svd' W' (unlift X) (unlift Y) k = Inr vs'"
    "var_U_k vs = lift (var_U_k vs')" "var_V_k vs = lift (var_V_k vs')"
    "var_U_l vs = lift (var_U_l vs')" "var_V_l vs = lift (var_V_l vs')"
    "var_W_k vs = lift (var_W_k vs')"
    "var_sigma_refined vs = map Finite (var_sigma_refined vs')"
    "var_W_refined vs = lift (var_W_refined vs')"
proof -
  let ?X = "unlift X" and ?Y = "unlift Y"
  from svd shapes obtain vs where v: "lip_locals svd W X Y k = Inr vs"
    "var_U vs = U" "var_S vs = S" "var_V vs = transpose_t Vh"
    "var_U_k vs = slice_cols_to (var_U vs) k"
    "var_S_k vs = diag (slice_to (var_S vs) k)"
    "var_V_k vs = slice_cols_to (var_V vs) k"
    "var_W_k vs = mm (mm (var_U_k vs) (var_S_k vs)) (transpose_t (var_V_k vs))"
    "var_U_l vs = slice_cols_from (var_U vs) k"
    "var_V_l vs = slice_cols_from (var_V vs) k"
    "var_residual vs = zip2 (\<lambda>x y. x - y) Y (mm X (var_W_k vs))"
    "var_A vs = mm (mm (transpose_t (var_U_l vs)) (mm (transpose_t X) (var_residual vs))) (var_V_l vs)"
    "var_B vs = mm (transpose_t (var_U_l vs)) (mm (transpose_t X) (mm X (var_U_l vs)))"
    "var_sigma_refined vs =
       map (\<lambda>i. divide (entry (var_A vs) i i) (entry (var_B vs) i i)) [0..<ncols (var_U_l vs)]"
    "var_S_l_refined vs = diag (var_sigma_refined vs)"
    "var_W_refined vs = zip2 (\<lambda>x y. x + y) (var_W_k vs)
       (mm (mm (var_U_l vs) (var_S_l_refined vs)) (transpose_t (var_V_l vs)))"
    by (rule lip_locals_run [of svd W U S Vh X Y k])
  have shapes': "ncols (unlift U) = length (map real_of_val S)"
    "nrows (unlift Vh) = length (map real_of_val S)"
    "ncols ?X = nrows (unlift U)" "nrows ?Y = nrows ?X" "ncols ?Y = ncols (unlift Vh)"
    using shapes by simp_all
  from svd' shapes' obtain vs' where r: "lip_locals svd' W' ?X ?Y k = Inr vs'"
    "var_U vs' = unlift U" "var_S vs' = map real_of_val S" "var_V vs' = transpose_t (unlift Vh)"
    "var_U_k vs' = slice_cols_to (var_U vs') k"
    "var_S_k vs' = diag (slice_to (var_S vs') k)"
    "var_V_k vs' = slice_cols_to (var_V vs') k"
    "var_W_k vs' = mm (mm (var_U_k vs') (var_S_k vs')) (transpose_t (var_V_k vs'))"
    "var_U_l vs' = slice_cols_from (var_U vs') k"
    "var_V_l vs' = slice_cols_from (var_V vs') k"
    "var_residual vs' = zip2 (\<lambda>x y. x - y) ?Y (mm ?X (var_W_k vs'))"
    "var_A vs' = mm (mm (transpose_t (var_U_l vs')) (mm (transpose_t ?X) (var_residual vs'))) (var_V_l vs')"
    "var_B vs' = mm (transpose_t (var_U_l vs')) (mm (transpose_t ?X) (mm ?X (var_U_l vs')))"
    "var_sigma_refined vs' =
       map (\<lambda>i. divide (entry (var_A vs') i i) (entry (var_B vs') i i)) [0..<ncols (var_U_l vs')]"
    "var_S_l_refined vs' = diag (var_sigma_refined vs')"
    "var_W_refined vs' = zip2 (\<lambda>x y. x + y) (var_W_k vs')
       (mm (mm (var_U_l vs') (var_S_l_refined vs')) (transpose_t (var_V_l vs')))"
    by (rule lip_locals_run [of svd' W' "unlift U" "map real_of_val S" "unlift Vh" ?X ?Y k])
  have V: "finite_t (var_V vs)" "unlift (var_V vs) = var_V vs'"
    by (simp_all add: v(4) r(4) finite_transpose_t fin unlift_transpose_t)
  have U_k: "finite_t (var_U_k vs)" "unlift (var_U_k vs) = var_U_k vs'"
    by (simp_all add: v(2,5) r(2,5) finite_slice_cols_to fin unlift_slice_cols_to)
  have V_k: "finite_t (var_V_k vs)" "unlift (var_V_k vs) = var_V_k vs'"
    unfolding v(7) r(7) by (simp_all add: finite_slice_cols_to V unlift_slice_cols_to)
  have U_l: "finite_t (var_U_l vs)" "unlift (var_U_l vs) = var_U_l vs'"
    by (simp_all add: v(2,9) r(2,9) finite_slice_cols_from fin unlift_slice_cols_from)
  have V_l: "finite_t (var_V_l vs)" "unlift (var_V_l vs) = var_V_l vs'"
    unfolding v(10) r(10) by (simp_all add: finite_slice_cols_from V unlift_slice_cols_from)
  have S_k: "finite_t (var_S_k vs)" "unlift (var_S_k vs) = var_S_k vs'"
    by (simp_all add: v(3,6) r(3,6) finite_diag list_all_slice_to fin unlift_diag slice_to_map)
  have sz: "ncols (var_U_k vs) = nrows (var_S_k vs)" "ncols (var_S_k vs) = ncols (var_V_k vs)"
    "ncols (var_U_l vs) = ncols (var_V_l vs)" "nrows (var_U_l vs) = nrows U"
    "nrows (var_U_k vs) = nrows U" "nrows (var_V_k vs) = ncols Vh" "nrows (var_V_l vs) = ncols Vh"
    "ncols (var_U_l vs) = length S - slice_index (length S) k"
    by (simp_all add: v(2-10) shapes)
  have US: "finite_t (mm (var_U_k vs) (var_S_k vs))"
    "unlift (mm (var_U_k vs) (var_S_k vs)) = mm (var_U_k vs') (var_S_k vs')"
    using U_k S_k sz by (simp_all add: finite_mm unlift_mm)
  have W_k: "finite_t (var_W_k vs)" "unlift (var_W_k vs) = var_W_k vs'"
    unfolding v(8) r(8) using US V_k sz
    by (simp_all add: finite_mm unlift_mm finite_transpose_t unlift_transpose_t)
  have XW: "finite_t (mm X (var_W_k vs))" "unlift (mm X (var_W_k vs)) = mm ?X (var_W_k vs')"
    using W_k fin(4) shapes sz by (simp_all add: finite_mm unlift_mm v(8))
  have res: "finite_t (var_residual vs)" "unlift (var_residual vs) = var_residual vs'"
    unfolding v(11) r(11) using XW fin(5) shapes sz
    by (simp_all add: finite_zip2_minus unlift_zip2_minus v(8))
  have Xt: "finite_t (transpose_t X)" "unlift (transpose_t X) = transpose_t ?X"
    by (simp_all add: finite_transpose_t fin unlift_transpose_t)
  have Ut: "finite_t (transpose_t (var_U_l vs))"
    "unlift (transpose_t (var_U_l vs)) = transpose_t (var_U_l vs')"
    by (simp_all add: finite_transpose_t U_l unlift_transpose_t)
  have XR: "finite_t (mm (transpose_t X) (var_residual vs))"
    "unlift (mm (transpose_t X) (var_residual vs)) = mm (transpose_t ?X) (var_residual vs')"
    using Xt res shapes by (simp_all add: finite_mm unlift_mm v(11))
  have UXR: "finite_t (mm (transpose_t (var_U_l vs)) (mm (transpose_t X) (var_residual vs)))"
    "unlift (mm (transpose_t (var_U_l vs)) (mm (transpose_t X) (var_residual vs))) =
       mm (transpose_t (var_U_l vs')) (mm (transpose_t ?X) (var_residual vs'))"
    using Ut XR shapes sz by (simp_all add: finite_mm unlift_mm)
  have A: "finite_t (var_A vs)" "unlift (var_A vs) = var_A vs'"
    unfolding v(12) r(12) using UXR V_l shapes sz by (simp_all add: finite_mm unlift_mm v(11))
  have XU: "finite_t (mm X (var_U_l vs))" "unlift (mm X (var_U_l vs)) = mm ?X (var_U_l vs')"
    using fin(4) U_l shapes sz by (simp_all add: finite_mm unlift_mm)
  have XXU: "finite_t (mm (transpose_t X) (mm X (var_U_l vs)))"
    "unlift (mm (transpose_t X) (mm X (var_U_l vs))) = mm (transpose_t ?X) (mm ?X (var_U_l vs'))"
    using Xt XU by (simp_all add: finite_mm unlift_mm)
  have B: "finite_t (var_B vs)" "unlift (var_B vs) = var_B vs'"
    unfolding v(13) r(13) using Ut XXU shapes sz by (simp_all add: finite_mm unlift_mm)
  have r_eq: "ncols (var_U_l vs') = ncols (var_U_l vs)"
    using U_l(2) [symmetric] by simp
  have shAB: "nrows (var_A vs) = ncols (var_U_l vs)" "ncols (var_A vs) = ncols (var_U_l vs)"
    "nrows (var_B vs) = ncols (var_U_l vs)" "ncols (var_B vs) = ncols (var_U_l vs)"
    by (simp_all add: v(12,13) sz)
  have quot: "divide (entry (var_A vs) i i) (entry (var_B vs) i i) =
      Finite (entry (var_A vs') i i / entry (var_B vs') i i)" if "i < ncols (var_U_l vs)" for i
  proof -
    have a: "is_finite (entry (var_A vs) i i)" and b: "is_finite (entry (var_B vs) i i)"
      using that A(1) B(1) shAB by (simp_all add: finite_tD)
    have "entry (var_B vs) i i \<noteq> 0"
      using nondegenerateD [OF nd svd, of i] that by (simp add: v(2,9,13))
    with b have b0: "real_of_val (entry (var_B vs) i i) \<noteq> 0"
      by (cases "entry (var_B vs) i i") (simp_all add: is_finite_def zero_val_def)
    have "entry (var_A vs') i i = real_of_val (entry (var_A vs) i i)"
      "entry (var_B vs') i i = real_of_val (entry (var_B vs) i i)"
      using that shAB by (simp_all add: A(2) [symmetric] B(2) [symmetric])
    with divide_finite [OF b0, of "real_of_val (entry (var_A vs) i i)"] a b show ?thesis
      by (simp add: Finite_real_of_val)
  qed
  have sigma: "var_sigma_refined vs = map Finite (var_sigma_refined vs')"
    unfolding v(14) r(14) r_eq by (simp add: quot)
  have S_l: "finite_t (var_S_l_refined vs)" "unlift (var_S_l_refined vs) = var_S_l_refined vs'"
    unfolding v(15) r(15) sigma by (simp_all add: finite_diag unlift_diag list_all_iff comp_def)
  have len: "length (var_sigma_refined vs) = ncols (var_U_l vs)"
    unfolding v(14) by simp
  have USl: "finite_t (mm (var_U_l vs) (var_S_l_refined vs))"
    "unlift (mm (var_U_l vs) (var_S_l_refined vs)) = mm (var_U_l vs') (var_S_l_refined vs')"
    using U_l S_l len by (simp_all add: finite_mm unlift_mm v(15))
  have USV: "finite_t (mm (mm (var_U_l vs) (var_S_l_refined vs)) (transpose_t (var_V_l vs)))"
    "unlift (mm (mm (var_U_l vs) (var_S_l_refined vs)) (transpose_t (var_V_l vs))) =
       mm (mm (var_U_l vs') (var_S_l_refined vs')) (transpose_t (var_V_l vs'))"
    using USl V_l len sz
    by (simp_all add: finite_mm unlift_mm finite_transpose_t unlift_transpose_t v(15))
  have W_r: "finite_t (var_W_refined vs)" "unlift (var_W_refined vs) = var_W_refined vs'"
    unfolding v(16) r(16) using W_k USV sz
    by (simp_all add: finite_zip2_plus unlift_zip2_plus v(8))
  have lifted: "T = lift T'" if "finite_t T" "unlift T = T'" "well_formed T" for T T'
    using lift_unlift [OF that(3,1)] that(2) by simp
  show thesis
  proof (rule runs [OF v(1) r(1) _ _ _ _ _ sigma])
    show "var_U_k vs = lift (var_U_k vs')"
      by (rule lifted [OF U_k]) (simp add: v(5))
    show "var_V_k vs = lift (var_V_k vs')"
      by (rule lifted [OF V_k]) (simp add: v(7))
    show "var_U_l vs = lift (var_U_l vs')"
      by (rule lifted [OF U_l]) (simp add: v(9))
    show "var_V_l vs = lift (var_V_l vs')"
      by (rule lifted [OF V_l]) (simp add: v(10))
    show "var_W_k vs = lift (var_W_k vs')"
      by (rule lifted [OF W_k]) (simp add: v(8))
    show "var_W_refined vs = lift (var_W_refined vs')"
      by (rule lifted [OF W_r]) (simp add: v(16))
  qed
qed

section \<open>The example run\<close>

lemmas eval_tensor = tab_def entry_def transpose_t_def slice_cols_to_def slice_cols_from_def
  slice_to_def slice_index_def diag_def mm_def matmul_def bindE_def broadcast2_def sub_def
  add_def bdim_def bidx_def arange_def index2_def vdiv_def Let_def lessThan_Suc
  eval_nat_numeral

lemma ex_svd_shapes: "svd_shapes svd_diag W_ex"
  by (simp add: svd_shapes_def svd_diag_def W_ex_def Let_def)

lemma ex_conforming: "conforming W_ex X_ex Y_ex"
  by (simp add: conforming_def W_ex_def X_ex_def Y_ex_def)

lemma ex_svd_exact: "svd_exact svd_diag W_ex"
  by (simp add: svd_exact_def svd_diag_def W_ex_def eval_tensor)

lemmas eval_ex = lip_def lip_locals_def svd_diag_def W_ex_def X_ex_def Y_ex_def Y_col_def

lemmas eval_deg = lip_def lip_locals_def svd_diag_def W_deg_def X_deg_def Y_deg_def

lemma ex_deg_shapes: "svd_shapes svd_diag W_deg" "conforming W_deg X_deg Y_deg"
  by (simp_all add: svd_shapes_def svd_diag_def conforming_def W_deg_def X_deg_def Y_deg_def Let_def)

lemma ex_deg_locals:
  "lip_locals svd_diag W_deg X_deg Y_deg 1 = Inr
     \<lparr> var_U = Tensor 2 2 [[Finite 1, Finite 0], [Finite 0, Finite 1]],
       var_S = [Finite 2, Finite 1],
       var_V = Tensor 2 2 [[Finite 1, Finite 0], [Finite 0, Finite 1]],
       var_U_k = Tensor 2 1 [[Finite 1], [Finite 0]],
       var_S_k = Tensor 1 1 [[Finite 2]],
       var_V_k = Tensor 2 1 [[Finite 1], [Finite 0]],
       var_W_k = Tensor 2 2 [[Finite 2, Finite 0], [Finite 0, Finite 0]],
       var_U_l = Tensor 2 1 [[Finite 0], [Finite 1]],
       var_V_l = Tensor 2 1 [[Finite 0], [Finite 1]],
       var_residual = Tensor 1 2 [[Finite 0, Finite 0]],
       var_A = Tensor 1 1 [[Finite 0]], var_B = Tensor 1 1 [[Finite 0]],
       var_sigma_refined = [NaN], var_S_l_refined = Tensor 1 1 [[NaN]],
       var_W_refined = Tensor 2 2 [[NaN, NaN], [NaN, NaN]] \<rparr>"
  by (simp add: eval_deg eval_tensor eval_val)

lemma svd_exactD:
  assumes "svd_exact svd W" and "svd W = (U, S, Vh)"
  shows "mm (mm U (diag S)) Vh = W"
  using assms by (simp add: svd_exact_def)

lemma svd_orthonormalD:
  assumes "svd_orthonormal svd W" and "svd W = (U, S, Vh)"
  shows "mm (transpose_t U) U = eye (ncols U)" "mm Vh (transpose_t Vh) = eye (nrows Vh)"
  using assms by (simp_all add: svd_orthonormal_def)

lemma ex_svd_orthonormal: "svd_orthonormal svd_diag W_ex"
  by code_simp

lemma ex_nondegenerate: "nondegenerate svd_diag W_ex X_ex 1"
  by (simp add: nondegenerate_def svd_diag_def W_ex_def X_ex_def eval_tensor)

lemma ex_deg_exact: "svd_exact svd_diag W_deg" "svd_orthonormal svd_diag W_deg"
  by code_simp+

lemma ex_deg_finite: "finite_t X_deg" "svd_finite svd_diag W_deg"
  by code_simp+

lemma ex_svd_sorted: "svd_sorted svd_diag W_ex"
  by (simp add: svd_sorted_def svd_diag_def W_ex_def eval_tensor)

lemma ex_truncated: "truncated_svd_reference (svd_diag W_ex) (nat 1) = Tensor 2 2 [[2, 0], [0, 0]]"
  by (simp add: truncated_svd_reference_def svd_diag_def W_ex_def eval_tensor)

lemma zip2_minus_lift:
  assumes "nrows B = nrows A" "ncols B = ncols A" "well_formed A" "well_formed B"
  shows "zip2 (\<lambda>x y. x - y) (lift A) (lift B) = lift (zip2 (\<lambda>x y. x - y) A B)"
  using assms by (simp add: zip2_minus_finite unlift_lift)

lemma svd_finiteD:
  assumes "svd_finite svd W" and "svd W = (U, S, Vh)"
  shows "finite_t U" "list_all is_finite S" "finite_t Vh"
  using assms by (simp_all add: svd_finite_def)

lemma ex_fin_shapes:
  "svd_shapes svd_diag W_fin" "svd_finite svd_diag W_fin" "svd_exact svd_diag W_fin"
  "svd_orthonormal svd_diag W_fin" "conforming W_fin X_fin Y_fin" "finite_t X_fin" "finite_t Y_fin"
  "nondegenerate svd_diag W_fin X_fin 1"
  by code_simp+


lemma orthonormal_unlift:
  assumes "finite_t U" "mm (transpose_t U) U = eye (ncols U)"
  shows "mm (transpose_t (unlift U)) (unlift U) = eye (ncols (unlift U))"
proof -
  have "mm (transpose_t U) U = lift (mm (unlift (transpose_t U)) (unlift U))"
    by (rule mm_finite) (simp_all add: assms(1) finite_transpose_t)
  with assms(2) have "lift (mm (transpose_t (unlift U)) (unlift U)) = lift (eye (ncols (unlift U)))"
    by (simp add: unlift_transpose_t lift_eye)
  then show ?thesis
    by (rule lift_inject [rotated 2]) (simp_all add: eye_def)
qed

lemma orthonormal_unlift_rows:
  assumes "finite_t Vh" "mm Vh (transpose_t Vh) = eye (nrows Vh)"
  shows "mm (unlift Vh) (transpose_t (unlift Vh)) = eye (nrows (unlift Vh))"
proof -
  have "mm Vh (transpose_t Vh) = lift (mm (unlift Vh) (unlift (transpose_t Vh)))"
    by (rule mm_finite) (simp_all add: assms(1) finite_transpose_t)
  with assms(2) have "lift (mm (unlift Vh) (transpose_t (unlift Vh))) = lift (eye (nrows (unlift Vh)))"
    by (simp add: unlift_transpose_t lift_eye)
  then show ?thesis
    by (rule lift_inject [rotated 2]) (simp_all add: eye_def)
qed

lemma mm3_lift:
  assumes "well_formed A" "well_formed D" "well_formed V" "ncols A = nrows D" "ncols D = ncols V"
  shows "mm (mm (lift A) (lift D)) (transpose_t (lift V)) = lift (mm (mm A D) (transpose_t V))"
proof -
  have "mm (mm (lift A) (lift D)) (transpose_t (lift V)) =
        mm (lift (mm A D)) (lift (transpose_t V))"
    using assms by (simp add: mm_lift lift_transpose_t)
  also have "\<dots> = lift (mm (mm A D) (transpose_t V))"
    using assms by (simp add: mm_lift)
  finally show ?thesis .
qed

lemma mm3_lift_left:
  assumes "well_formed A" "well_formed M" "well_formed V" "nrows A = nrows M" "ncols M = nrows V"
  shows "mm (mm (transpose_t (lift A)) (lift M)) (lift V) = lift (mm (mm (transpose_t A) M) V)"
proof -
  have "mm (mm (transpose_t (lift A)) (lift M)) (lift V) =
        mm (mm (lift (transpose_t A)) (lift M)) (lift V)"
    by (simp add: lift_transpose_t)
  also have "\<dots> = mm (lift (mm (transpose_t A) M)) (lift V)"
    using assms by (simp add: mm_lift)
  also have "\<dots> = lift (mm (mm (transpose_t A) M) V)"
    using assms by (simp add: mm_lift)
  finally show ?thesis .
qed

text \<open>In exact arithmetic the result leaves the preserved subspace as it was.\<close>

lemma noise_subspace_real:
  fixes svd :: "real svd_fun"
  assumes "svd_shapes svd W_noisy" and "svd_exact svd W_noisy" and "svd_orthonormal svd W_noisy"
    and "conforming W_noisy X Y"
  shows "\<exists>vs D. lip_locals svd W_noisy X Y k = Inr vs \<and>
           lip svd W_noisy X Y k = Inr (var_W_refined vs) \<and> well_formed D \<and>
           well_formed (var_W_refined vs) \<and> well_formed (var_U_k vs) \<and>
           well_formed (var_V_k vs) \<and> well_formed (var_U_l vs) \<and> well_formed (var_V_l vs) \<and>
           nrows (var_W_refined vs) = nrows W_noisy \<and> ncols (var_W_refined vs) = ncols W_noisy \<and>
           nrows (var_U_k vs) = nrows W_noisy \<and> nrows (var_V_k vs) = ncols W_noisy \<and>
           nrows (var_U_l vs) = nrows W_noisy \<and> nrows (var_V_l vs) = ncols W_noisy \<and>
           nrows D = ncols (var_U_l vs) \<and> ncols D = ncols (var_V_l vs) \<and>
           zip2 (\<lambda>x y. x - y) (var_W_refined vs) W_noisy =
             mm (mm (var_U_l vs) D) (transpose_t (var_V_l vs)) \<and>
           mm (mm (transpose_t (var_U_k vs)) (zip2 (\<lambda>x y. x - y) (var_W_refined vs) W_noisy))
              (var_V_k vs) = zeros (ncols (var_U_k vs)) (ncols (var_V_k vs))"
proof -
  obtain U S Vh where svd: "svd W_noisy = (U, S, Vh)"
    by (cases "svd W_noisy") auto
  note sh = svd_shapesD [OF assms(1) svd]
  from assms(4) sh have c: "ncols X = nrows U" "nrows Y = nrows X" "ncols Y = ncols Vh"
    by (simp_all add: conforming_def)
  from svd sh(2,3) c show ?thesis
  proof (cases rule: lip_locals_run [of svd W_noisy U S Vh X Y k])
    case (run vs)
    let ?c = "slice_index (length S) k"
    let ?sigma = "var_sigma_refined vs"
    define D where "D = diag (map (\<lambda>t. ?sigma ! t - drop ?c S ! t) [0..<length ?sigma])"
    have len: "length ?sigma = length S - ?c" "ncols (var_U_l vs) = length S - ?c"
        "ncols (var_V_l vs) = length S - ?c" "ncols (var_U_k vs) = ?c" "ncols (var_V_k vs) = ?c"
        "nrows (var_U_l vs) = nrows U" "nrows (var_V_l vs) = ncols Vh"
        "nrows (var_U_k vs) = nrows U" "nrows (var_V_k vs) = ncols Vh"
      by (simp_all add: run sh)
    have W: "W_noisy = zip2 (\<lambda>x y. x + y) (var_W_k vs)
        (mm (mm (var_U_l vs) (diag (drop ?c S))) (transpose_t (var_V_l vs)))"
      unfolding svd_exactD [OF assms(2) svd, symmetric] run(2-10)
      by (rule svd_split [OF sh(2,3)])
    have diff: "zip2 (\<lambda>x y. x - y) (var_W_refined vs) W_noisy =
        mm (mm (var_U_l vs) D) (transpose_t (var_V_l vs))"
      unfolding run(16) run(15) D_def
      apply (subst W)
      apply (subst zip2_add_cancel)
          apply (simp_all add: len run(8))[4]
      apply (rule residual_terms_diff)
       apply (simp_all add: len)
      done
    have orth: "mm (transpose_t (var_U_k vs)) (var_U_l vs) = zeros ?c (length S - ?c)"
      unfolding run(5,9,2)
      using slices_orthogonal [OF svd_orthonormalD(1) [OF assms(3) svd], of k] sh(2) by simp
    have "mm (transpose_t (var_U_k vs)) (mm (mm (var_U_l vs) D) (transpose_t (var_V_l vs))) =
        mm (mm (mm (transpose_t (var_U_k vs)) (var_U_l vs)) D) (transpose_t (var_V_l vs))"
      by (simp add: mm_assoc len D_def)
    also have "\<dots> = zeros ?c (nrows (var_V_l vs))"
      unfolding orth by (simp add: mm_zeros_left)
    finally have "mm (mm (transpose_t (var_U_k vs)) (zip2 (\<lambda>x y. x - y) (var_W_refined vs) W_noisy))
              (var_V_k vs) = zeros (ncols (var_U_k vs)) (ncols (var_V_k vs))"
      unfolding diff by (simp add: mm_zeros_left len)
    moreover have "well_formed (var_W_refined vs)" "well_formed (var_U_k vs)"
        "well_formed (var_V_k vs)" "well_formed (var_U_l vs)" "well_formed (var_V_l vs)"
        "nrows (var_W_refined vs) = nrows W_noisy" "ncols (var_W_refined vs) = ncols W_noisy"
      by (simp_all add: run(2-5,7,9,10,16) len run(8) sh(1,4))
    ultimately show ?thesis
      using run(1) diff
      by (intro exI [of _ vs] exI [of _ D]) (simp add: lip_def D_def len sh(1,4))
  qed
qed

section \<open>The claims\<close>

text \<open>
  C1. The LAP stage. For conforming inputs without infinities or \<open>NaN\<close> in the
  features and the decomposition, \<open>lip\<close> computes \<open>residual = Y - X W_k\<close>,
  \<open>A = U_l\<^sup>T (X\<^sup>T residual) V_l\<close> and \<open>B = U_l\<^sup>T (X\<^sup>T X) U_l\<close> (the source groups the
  last product as \<open>U_l\<^sup>T (X\<^sup>T (X U_l))\<close>, which is the same matrix), and for each
  residual axis \<open>i\<close> (there are \<open>min(q, l) - k\<close> of them for \<open>k\<close> in range) the
  refined singular value is the quotient \<open>A[i, i] / B[i, i]\<close> of the diagonal
  entries; nothing else of \<open>A\<close> and \<open>B\<close> enters the result, which is
  \<open>W_k + U_l diag(sigma_refined) V_l\<^sup>T\<close>. The quotient is the one of the scalars with
  special values, so the statement covers a zero \<open>B[i, i]\<close> as well.
\<close>

theorem lip_lap_stage:
  fixes svd :: "val svd_fun"
  assumes "svd_shapes svd W_noisy" and "conforming W_noisy X Y"
    and "finite_t X" and "svd_finite svd W_noisy"
  shows "\<exists>vs. lip_locals svd W_noisy X Y k = Inr vs \<and>
           var_residual vs = zip2 (\<lambda>x y. x - y) Y (mm X (var_W_k vs)) \<and>
           var_A vs = mm (mm (transpose_t (var_U_l vs)) (mm (transpose_t X) (var_residual vs)))
                         (var_V_l vs) \<and>
           var_B vs = mm (mm (transpose_t (var_U_l vs)) (mm (transpose_t X) X)) (var_U_l vs) \<and>
           ncols (var_U_l vs) = min (nrows W_noisy) (ncols W_noisy) -
             slice_index (min (nrows W_noisy) (ncols W_noisy)) k \<and>
           length (var_sigma_refined vs) = ncols (var_U_l vs) \<and>
           (\<forall>i < ncols (var_U_l vs).
              var_sigma_refined vs ! i = divide (entry (var_A vs) i i) (entry (var_B vs) i i)) \<and>
           lip svd W_noisy X Y k =
             Inr (zip2 (\<lambda>x y. x + y) (var_W_k vs)
                   (mm (mm (var_U_l vs) (diag (var_sigma_refined vs))) (transpose_t (var_V_l vs))))"
proof -
  obtain U S Vh where svd: "svd W_noisy = (U, S, Vh)"
    by (cases "svd W_noisy") auto
  note sh = svd_shapesD [OF assms(1) svd]
  from assms(2) sh have c: "ncols X = nrows U" "nrows Y = nrows X" "ncols Y = ncols Vh"
    by (simp_all add: conforming_def)
  from assms(4) svd have U: "finite_t U"
    by (simp add: svd_finite_def)
  from svd sh(2,3) c show ?thesis
  proof (cases rule: lip_locals_run [of svd W_noisy U S Vh X Y k])
    case (run vs)
    have "finite_t (var_U_l vs)" "ncols X = nrows (var_U_l vs)"
      by (simp_all add: run(2,9) finite_slice_cols_from U c)
    with assms(3) have B: "var_B vs =
        mm (mm (transpose_t (var_U_l vs)) (mm (transpose_t X) X)) (var_U_l vs)"
      unfolding run(13) by (rule energy_regroup)
    have "var_sigma_refined vs ! i = divide (entry (var_A vs) i i) (entry (var_B vs) i i)"
      if "i < ncols (var_U_l vs)" for i
      using that unfolding run(14) by simp
    moreover have "length (var_sigma_refined vs) = ncols (var_U_l vs)"
      unfolding run(14) by simp
    moreover have "ncols (var_U_l vs) = min (nrows W_noisy) (ncols W_noisy) -
        slice_index (min (nrows W_noisy) (ncols W_noisy)) k"
      by (simp add: run(2,9) sh(2,5))
    ultimately show ?thesis
      using run(1,11,12,15,16) B by (simp add: lip_def)
  qed
qed

theorem lip_lap_stage_witness:
  "svd_shapes svd_diag W_deg \<and> conforming W_deg X_deg Y_deg \<and> finite_t X_deg \<and>
   svd_finite svd_diag W_deg \<and>
   (\<exists>vs. lip_locals svd_diag W_deg X_deg Y_deg 1 = Inr vs \<and>
           var_B vs = mm (mm (transpose_t (var_U_l vs)) (mm (transpose_t X_deg) X_deg)) (var_U_l vs) \<and>
           length (var_sigma_refined vs) = ncols (var_U_l vs) \<and>
           (0::nat) < ncols (var_U_l vs) \<and>
           var_sigma_refined vs ! 0 = divide (entry (var_A vs) 0 0) (entry (var_B vs) 0 0))"
proof -
  from lip_lap_stage [OF ex_deg_shapes ex_deg_finite, of 1] obtain vs where
    vs: "lip_locals svd_diag W_deg X_deg Y_deg 1 = Inr vs"
      "var_B vs = mm (mm (transpose_t (var_U_l vs)) (mm (transpose_t X_deg) X_deg)) (var_U_l vs)"
      "length (var_sigma_refined vs) = ncols (var_U_l vs)"
    and q: "\<And>i. i < ncols (var_U_l vs) \<Longrightarrow>
       var_sigma_refined vs ! i = divide (entry (var_A vs) i i) (entry (var_B vs) i i)"
    by blast
  from vs(1) have "(0::nat) < ncols (var_U_l vs)"
    unfolding ex_deg_locals by auto
  with q [of 0] vs ex_deg_shapes ex_deg_finite show ?thesis
    by blast
qed




text \<open>
  C3. The claim is that \<open>lip\<close> rejects every input whose shapes or rank parameter
  break the preconditions. It does not: labels \<open>Y\<close> of a single column do not conform,
  and are stretched over the columns by the subtraction; a rank parameter above
  \<open>min(q, l)\<close> is clamped by the slices; a negative one counts from the end. All three
  calls return a matrix.
\<close>

theorem lip_validation_counterexample:
  "svd_shapes svd_diag W_ex \<and>
   \<not> conforming W_ex X_ex Y_col \<and>
   lip svd_diag W_ex X_ex Y_col 1 = Inr (Tensor 2 2 [[2, 0], [0, 1 / 2]]) \<and>
   int (min (nrows W_ex) (ncols W_ex)) < 3 \<and>
   lip svd_diag W_ex X_ex Y_ex 3 = Inr W_ex \<and>
   lip svd_diag W_ex X_ex Y_ex (- 1) = Inr (Tensor 2 2 [[2, 0], [0, 2]])"
proof -
  have "\<not> conforming W_ex X_ex Y_col"
    by (simp add: conforming_def W_ex_def X_ex_def Y_col_def)
  moreover have "lip svd_diag W_ex X_ex Y_col 1 = Inr (Tensor 2 2 [[2, 0], [0, 1 / 2]])"
    by (simp add: eval_ex eval_tensor)
  moreover have "int (min (nrows W_ex) (ncols W_ex)) < 3"
    by (simp add: W_ex_def)
  moreover have "lip svd_diag W_ex X_ex Y_ex 3 = Inr W_ex"
    by (simp add: eval_ex eval_tensor)
  moreover have "lip svd_diag W_ex X_ex Y_ex (- 1) = Inr (Tensor 2 2 [[2, 0], [0, 2]])"
    by (simp add: eval_ex eval_tensor)
  ultimately show ?thesis
    using ex_svd_shapes by blast
qed

text \<open>
  C3, as the code has it. \<open>lip\<close> checks nothing itself; an error is the error of a
  tensor operation. With a decomposition of the documented shapes the call raises
  exactly when the column count of \<open>X\<close> is not \<open>q\<close>, or the row count of \<open>Y\<close> is
  neither \<open>n\<close> nor one, or the column count of \<open>Y\<close> is neither \<open>l\<close> nor one. No
  value of \<open>k\<close> makes it raise.
\<close>

theorem lip_raises_iff:
  fixes svd :: "'a::{comm_monoid_add,times,minus,divide} svd_fun"
  assumes "svd_shapes svd W_noisy"
  shows "(\<exists>e. lip svd W_noisy X Y k = Inl e) \<longleftrightarrow>
           ncols X \<noteq> nrows W_noisy \<or>
           (nrows Y \<noteq> nrows X \<and> nrows Y \<noteq> 1) \<or>
           (ncols Y \<noteq> ncols W_noisy \<and> ncols Y \<noteq> 1)"
proof -
  obtain U S Vh where svd: "svd W_noisy = (U, S, Vh)"
    by (cases "svd W_noisy") auto
  note sh = svd_shapesD [OF assms(1) svd]
  show ?thesis
  proof (cases "ncols X = nrows U \<and> (nrows Y = nrows X \<or> nrows Y = 1) \<and>
      (ncols Y = ncols Vh \<or> ncols Y = 1)")
    case True
    then have "\<exists>vs. lip_locals svd W_noisy X Y k = Inr vs"
      using lip_locals_stretch [of svd W_noisy U S Vh X Y k, OF svd sh(2,3)] by blast
    with True show ?thesis
      by (auto simp add: lip_def sh)
  next
    case False
    then have "\<exists>e. lip_locals svd W_noisy X Y k = Inl e"
      using lip_error_cases [of svd W_noisy U S Vh X Y k, OF svd sh(2,3)] by blast
    with False show ?thesis
      by (auto simp add: lip_def sh)
  qed
qed

theorem lip_raises_iff_witness:
  "svd_shapes svd_diag W_ex \<and> ncols Y_col \<noteq> nrows W_ex \<and>
   (\<exists>e. lip svd_diag W_ex Y_col Y_ex 1 = Inl e)"
proof -
  have "ncols Y_col \<noteq> nrows W_ex"
    by (simp add: Y_col_def W_ex_def)
  with lip_raises_iff [OF ex_svd_shapes, of Y_col Y_ex 1] ex_svd_shapes
  show ?thesis by blast
qed

text \<open>
  C4. With \<open>k = min(q, l)\<close> the residual subspace is empty: \<open>U_l\<close> and \<open>V_l\<close> have
  no column, \<open>A\<close> and \<open>B\<close> are the empty matrix, no singular value is re-estimated
  (so nothing is divided), the residual term is the zero matrix, and \<open>lip\<close> returns
  without error the matrix \<open>W_noisy\<close> itself, as soon as the factors of the
  decomposition multiply back to \<open>W_noisy\<close>.
\<close>

theorem lip_full_rank:
  fixes svd :: "'a::{comm_monoid_add,times,minus,divide} svd_fun"
  assumes "svd_shapes svd W_noisy" and "svd_exact svd W_noisy" and "conforming W_noisy X Y"
    and "k = int (min (nrows W_noisy) (ncols W_noisy))"
  shows "\<exists>vs. lip_locals svd W_noisy X Y k = Inr vs \<and>
           ncols (var_U_l vs) = 0 \<and> ncols (var_V_l vs) = 0 \<and>
           var_A vs = zeros 0 0 \<and> var_B vs = zeros 0 0 \<and> var_sigma_refined vs = [] \<and>
           mm (mm (var_U_l vs) (var_S_l_refined vs)) (transpose_t (var_V_l vs)) =
             zeros (nrows W_noisy) (ncols W_noisy) \<and>
           var_W_k vs = W_noisy \<and>
           lip svd W_noisy X Y k = Inr W_noisy"
proof -
  obtain U S Vh where svd: "svd W_noisy = (U, S, Vh)"
    by (cases "svd W_noisy") auto
  note sh = svd_shapesD [OF assms(1) svd]
  from assms(3) sh have c: "ncols X = nrows U" "nrows Y = nrows X" "ncols Y = ncols Vh"
    by (simp_all add: conforming_def)
  from assms(4) sh have k: "int (length S) \<le> k"
    by simp
  have W_k: "mm (mm (slice_cols_to U k) (diag (slice_to S k)))
            (transpose_t (slice_cols_to (transpose_t Vh) k)) = W_noisy"
    using slice_psp_full [OF sh(2,3) k] assms(2) svd by (simp add: svd_exact_def)
  have W: "well_formed W_noisy"
    using assms(2) svd by (auto simp add: svd_exact_def)
  have r0: "slice_index (ncols U) k = ncols U" "slice_index (nrows Vh) k = nrows Vh"
      "slice_index (length S) k = length S"
    by (simp_all add: sh(2,3) slice_index_ge [OF k])
  have empty: "mm P Q = zeros 0 0" if "nrows P = 0" "ncols Q = 0" for P Q :: "'a tensor"
    using that by (simp add: mm_def zeros_def)
  have A: "mm (mm (transpose_t (slice_cols_from U k))
             (mm (transpose_t X) (zip2 (\<lambda>x y. x - y) Y (mm X W_noisy))))
             (slice_cols_from (transpose_t Vh) k) = zeros 0 0"
    by (rule empty) (simp_all add: r0)
  have B: "mm (transpose_t (slice_cols_from U k))
             (mm (transpose_t X) (mm X (slice_cols_from U k))) = zeros 0 0"
    by (rule empty) (simp_all add: r0)
  have R: "mm (mm (slice_cols_from U k) (diag [])) (transpose_t (slice_cols_from (transpose_t Vh) k))
      = zeros (nrows W_noisy) (ncols W_noisy)"
    by (simp add: r0 sh(1,4))
  note run = lip_locals_ok [of svd W_noisy U S Vh X Y k, OF svd sh(2,3) c]
  show ?thesis
    unfolding lip_def run
    by (simp add: r0 W_k A B R [unfolded sh(1,4) [symmetric]] sh(1,4) zip2_add_zeros_right [OF W])
qed

theorem lip_full_rank_witness:
  "svd_shapes svd_diag W_ex \<and> svd_exact svd_diag W_ex \<and> conforming W_ex X_ex Y_ex \<and>
   (2::int) = int (min (nrows W_ex) (ncols W_ex)) \<and>
   lip svd_diag W_ex X_ex Y_ex 2 = Inr W_ex"
proof -
  have k: "(2::int) = int (min (nrows W_ex) (ncols W_ex))"
    by (simp add: W_ex_def)
  from lip_full_rank [OF ex_svd_shapes ex_svd_exact ex_conforming k]
    ex_svd_shapes ex_svd_exact ex_conforming k
  show ?thesis by blast
qed

text \<open>
  C5. With \<open>k = 0\<close> the preserved term \<open>W_k\<close> is the zero matrix of shape \<open>(q, l)\<close>,
  and \<open>lip\<close> returns the re-estimated residual term alone: \<open>U_l\<close> holds all
  \<open>min(q, l)\<close> columns of \<open>U\<close> and \<open>V_l\<close> all columns of \<open>V\<close> (the rows of \<open>Vh\<close>),
  the residual is \<open>Y - X W_k\<close>, every singular value is re-estimated as the quotient
  \<open>A[i, i] / B[i, i]\<close>, and the result is \<open>U_l diag(sigma_refined) V_l\<^sup>T\<close>.
\<close>

theorem lip_zero_rank:
  fixes svd :: "'a::{comm_monoid_add,times,minus,divide} svd_fun"
  assumes "svd_shapes svd W_noisy" and "conforming W_noisy X Y"
  shows "\<exists>vs. lip_locals svd W_noisy X Y 0 = Inr vs \<and>
           var_W_k vs = zeros (nrows W_noisy) (ncols W_noisy) \<and>
           var_U_l vs = tab (nrows W_noisy) (min (nrows W_noisy) (ncols W_noisy))
                          (entry (fst (svd W_noisy))) \<and>
           var_V_l vs = tab (ncols W_noisy) (min (nrows W_noisy) (ncols W_noisy))
                          (\<lambda>j t. entry (snd (snd (svd W_noisy))) t j) \<and>
           var_residual vs = zip2 (\<lambda>x y. x - y) Y (mm X (var_W_k vs)) \<and>
           var_A vs = mm (mm (transpose_t (var_U_l vs)) (mm (transpose_t X) (var_residual vs)))
                         (var_V_l vs) \<and>
           var_B vs = mm (transpose_t (var_U_l vs)) (mm (transpose_t X) (mm X (var_U_l vs))) \<and>
           var_sigma_refined vs =
             map (\<lambda>i. divide (entry (var_A vs) i i) (entry (var_B vs) i i))
               [0..<min (nrows W_noisy) (ncols W_noisy)] \<and>
           var_S_l_refined vs = diag (var_sigma_refined vs) \<and>
           lip svd W_noisy X Y 0 =
             Inr (mm (mm (var_U_l vs) (var_S_l_refined vs)) (transpose_t (var_V_l vs)))"
proof -
  obtain U S Vh where svd: "svd W_noisy = (U, S, Vh)"
    by (cases "svd W_noisy") auto
  note sh = svd_shapesD [OF assms(1) svd]
  from assms(2) sh have c: "ncols X = nrows U" "nrows Y = nrows X" "ncols Y = ncols Vh"
    by (simp_all add: conforming_def)
  from svd sh(2,3) c show ?thesis
  proof (cases rule: lip_locals_run [of svd W_noisy U S Vh X Y 0])
    case (run vs)
    have U_l: "var_U_l vs = tab (nrows W_noisy) (min (nrows W_noisy) (ncols W_noisy)) (entry U)"
      unfolding run(9) run(2) by (simp add: slice_cols_from_def sh)
    have V_l: "var_V_l vs = tab (ncols W_noisy) (min (nrows W_noisy) (ncols W_noisy))
        (\<lambda>j t. entry Vh t j)"
      unfolding run(10) run(4)
      by (simp add: slice_cols_from_def sh) (rule tab_cong, simp add: sh)
    have W_k: "var_W_k vs = zeros (nrows W_noisy) (ncols W_noisy)"
      unfolding run(2-8) by (rule tensor_eqI; simp add: sh)
    have res: "var_W_refined vs =
        mm (mm (var_U_l vs) (var_S_l_refined vs)) (transpose_t (var_V_l vs))"
      unfolding run(16) W_k
      using zip2_add_zeros_left
        [of "mm (mm (var_U_l vs) (var_S_l_refined vs)) (transpose_t (var_V_l vs))"]
      by (simp add: run(2,4,9,10) sh)
    have sigma: "var_sigma_refined vs =
        map (\<lambda>i. divide (entry (var_A vs) i i) (entry (var_B vs) i i))
          [0..<min (nrows W_noisy) (ncols W_noisy)]"
      unfolding run(14) by (simp add: U_l)
    from run(1,11,12,13,15) U_l V_l W_k res sigma show ?thesis
      by (simp add: lip_def svd)
  qed
qed

theorem lip_zero_rank_witness:
  "svd_shapes svd_diag W_ex \<and> conforming W_ex X_ex Y_ex \<and>
   (\<exists>vs. lip_locals svd_diag W_ex X_ex Y_ex 0 = Inr vs \<and>
           var_W_k vs = zeros (nrows W_ex) (ncols W_ex) \<and>
           var_U_l vs = tab (nrows W_ex) (min (nrows W_ex) (ncols W_ex))
                          (entry (fst (svd_diag W_ex))) \<and>
           var_sigma_refined vs =
             map (\<lambda>i. divide (entry (var_A vs) i i) (entry (var_B vs) i i))
               [0..<min (nrows W_ex) (ncols W_ex)] \<and>
           lip svd_diag W_ex X_ex Y_ex 0 =
             Inr (mm (mm (var_U_l vs) (var_S_l_refined vs)) (transpose_t (var_V_l vs)))) \<and>
   lip svd_diag W_ex X_ex Y_ex 0 = Inr (Tensor 2 2 [[3 / 2, 0], [0, 2]])"
proof -
  have "lip svd_diag W_ex X_ex Y_ex 0 = Inr (Tensor 2 2 [[3 / 2, 0], [0, 2]])"
    by (simp add: eval_ex eval_tensor)
  with lip_zero_rank [OF ex_svd_shapes ex_conforming] ex_svd_shapes ex_conforming
  show ?thesis
    by blast
qed

text \<open>
  C6. For a rank parameter in range and a decomposition that is exact, orthonormal
  and has non-negative descending singular values, the intermediate \<open>W_k\<close> of \<open>lip\<close>
  is the truncated decomposition (the sum of its first \<open>k\<close> terms), it is a product
  of a \<open>q \<times> k\<close> and a \<open>k \<times> l\<close> matrix, and no such product (no matrix of rank at
  most \<open>k\<close>) is closer to \<open>W_noisy\<close> in the Frobenius norm: the theorem of Eckart and
  Young.
\<close>

theorem lip_psp_optimal:
  fixes svd :: "real svd_fun"
  assumes "svd_shapes svd W_noisy" and "svd_exact svd W_noisy" and "svd_orthonormal svd W_noisy"
    and "svd_sorted svd W_noisy" and "conforming W_noisy X Y"
    and "0 \<le> k" and "k \<le> int (min (nrows W_noisy) (ncols W_noisy))"
  shows "\<exists>vs. lip_locals svd W_noisy X Y k = Inr vs \<and>
           var_W_k vs = truncated_svd_reference (svd W_noisy) (nat k) \<and>
           (\<exists>P Q. nrows P = nrows W_noisy \<and> ncols P = nat k \<and> nrows Q = nat k \<and>
              ncols Q = ncols W_noisy \<and> var_W_k vs = mm P Q) \<and>
           (\<forall>P Q. nrows P = nrows W_noisy \<and> ncols P = nat k \<and> nrows Q = nat k \<and>
              ncols Q = ncols W_noisy \<longrightarrow>
              frobenius (zip2 (\<lambda>x y. x - y) W_noisy (var_W_k vs)) \<le>
              frobenius (zip2 (\<lambda>x y. x - y) W_noisy (mm P Q)))"
proof -
  obtain U S Vh where svd: "svd W_noisy = (U, S, Vh)"
    by (cases "svd W_noisy") auto
  note sh = svd_shapesD [OF assms(1) svd]
  from assms(5) sh have c: "ncols X = nrows U" "nrows Y = nrows X" "ncols Y = ncols Vh"
    by (simp_all add: conforming_def)
  let ?q = "nrows W_noisy" and ?l = "ncols W_noisy" and ?m = "length S"
  let ?u = "\<lambda>s i. entry U i s" and ?v = "entry Vh" and ?a = "\<lambda>s. S ! s"
  have k: "slice_index ?m k = nat k" "nat k \<le> ?m"
    using assms(6,7) sh(5) by (auto simp add: slice_index_def)
  have ou: "orthonormal_fam ?q ?m ?u"
    using orthonormal_cols [OF svd_orthonormalD(1) [OF assms(3) svd]] sh by simp
  have ov: "orthonormal_fam ?l ?m ?v"
    using orthonormal_rows [OF svd_orthonormalD(2) [OF assms(3) svd]] sh by simp
  have W: "entry W_noisy i j = svd_sum ?m ?u ?a ?v i j" if "i < ?q" "j < ?l" for i j
    unfolding svd_exactD [OF assms(2) svd, symmetric] svd_sum_def
    using that sh by (simp add: entry_mm_diag_mm)
  from svd sh(2,3) c show ?thesis
  proof (cases rule: lip_locals_run [of svd W_noisy U S Vh X Y k])
    case (run vs)
    have shk: "nrows (var_W_k vs) = ?q" "ncols (var_W_k vs) = ?l"
      by (simp_all add: run sh)
    have Wk: "entry (var_W_k vs) i j = svd_sum (nat k) ?u ?a ?v i j" if "i < ?q" "j < ?l" for i j
      unfolding run(2-8) svd_sum_def
      using that sh k by (simp add: entry_mm_diag_mm)
    have ref: "var_W_k vs = truncated_svd_reference (svd W_noisy) (nat k)"
    proof (rule tensor_eqI)
      show "well_formed (var_W_k vs)"
        by (simp add: run(8))
      show "well_formed (truncated_svd_reference (svd W_noisy) (nat k))"
        by (simp add: truncated_svd_reference_def svd)
      show "nrows (var_W_k vs) = nrows (truncated_svd_reference (svd W_noisy) (nat k))"
        "ncols (var_W_k vs) = ncols (truncated_svd_reference (svd W_noisy) (nat k))"
        by (simp_all add: truncated_svd_reference_def svd shk sh)
      fix i j assume "i < nrows (var_W_k vs)" "j < ncols (var_W_k vs)"
      then have ij: "i < ?q" "j < ?l"
        by (simp_all add: shk)
      then show "entry (var_W_k vs) i j = entry (truncated_svd_reference (svd W_noisy) (nat k)) i j"
        by (simp add: Wk truncated_svd_reference_def svd sh svd_sum_def algebra_simps)
    qed
    have rank: "\<exists>P Q. nrows P = ?q \<and> ncols P = nat k \<and> nrows Q = nat k \<and> ncols Q = ?l \<and>
        var_W_k vs = mm P Q"
    proof (rule exI [of _ "mm (var_U_k vs) (var_S_k vs)"],
        rule exI [of _ "transpose_t (var_V_k vs)"])
      show "nrows (mm (var_U_k vs) (var_S_k vs)) = ?q \<and>
          ncols (mm (var_U_k vs) (var_S_k vs)) = nat k \<and>
          nrows (transpose_t (var_V_k vs)) = nat k \<and>
          ncols (transpose_t (var_V_k vs)) = ?l \<and>
          var_W_k vs = mm (mm (var_U_k vs) (var_S_k vs)) (transpose_t (var_V_k vs))"
        by (simp add: run(2-8) sh(1-4) k)
    qed
    have dist: "(\<Sum>i<?q. \<Sum>j<?l. (entry W_noisy i j - entry (var_W_k vs) i j)\<^sup>2) =
        (\<Sum>s<?m. (S ! s)\<^sup>2) - (\<Sum>s<nat k. (S ! s)\<^sup>2)"
      using truncation_distance [OF ou ov k(2), of ?a] by (simp add: W Wk)
    have best: "frobenius (zip2 (\<lambda>x y. x - y) W_noisy (var_W_k vs)) \<le>
        frobenius (zip2 (\<lambda>x y. x - y) W_noisy (mm P Q))"
      if PQ: "nrows P = ?q" "ncols P = nat k" "nrows Q = nat k" "ncols Q = ?l" for P Q
    proof -
      have "(\<Sum>s<?m. (S ! s)\<^sup>2) - (\<Sum>s<nat k. (S ! s)\<^sup>2) \<le>
          (\<Sum>i<?q. \<Sum>j<?l. (svd_sum ?m ?u ?a ?v i j - (\<Sum>t<nat k. entry P i t * entry Q t j))\<^sup>2)"
        by (rule approximation_bound [OF ou ov svd_sortedD [OF assms(4) svd] k(2),
              where P = "\<lambda>t i. entry P i t" and Q = "entry Q"])
      also have "\<dots> = (\<Sum>i<?q. \<Sum>j<?l. (entry W_noisy i j - entry (mm P Q) i j)\<^sup>2)"
        using PQ by (simp add: W)
      finally show ?thesis
        unfolding frobenius_diff [OF shk] dist
        using PQ by (simp add: frobenius_diff)
    qed
    from run(1) ref rank best show ?thesis
      by blast
  qed
qed

theorem lip_psp_optimal_witness:
  "svd_shapes svd_diag W_ex \<and> svd_exact svd_diag W_ex \<and> svd_orthonormal svd_diag W_ex \<and>
   svd_sorted svd_diag W_ex \<and> conforming W_ex X_ex Y_ex \<and>
   (0::int) \<le> 1 \<and> (1::int) \<le> int (min (nrows W_ex) (ncols W_ex)) \<and>
   nrows P_ex = nrows W_ex \<and> ncols P_ex = nat 1 \<and> nrows Q_ex = nat 1 \<and> ncols Q_ex = ncols W_ex \<and>
   (\<exists>vs. lip_locals svd_diag W_ex X_ex Y_ex 1 = Inr vs \<and>
      var_W_k vs = truncated_svd_reference (svd_diag W_ex) (nat 1) \<and>
      var_W_k vs = Tensor 2 2 [[2, 0], [0, 0]] \<and>
      frobenius (zip2 (\<lambda>x y. x - y) W_ex (var_W_k vs)) \<le>
      frobenius (zip2 (\<lambda>x y. x - y) W_ex (mm P_ex Q_ex)))"
proof -
  have k: "(0::int) \<le> 1" "(1::int) \<le> int (min (nrows W_ex) (ncols W_ex))"
    by (simp_all add: W_ex_def)
  have PQ: "nrows P_ex = nrows W_ex \<and> ncols P_ex = nat 1 \<and> nrows Q_ex = nat 1 \<and>
      ncols Q_ex = ncols W_ex"
    by (simp add: P_ex_def Q_ex_def W_ex_def)
  from lip_psp_optimal [OF ex_svd_shapes ex_svd_exact ex_svd_orthonormal ex_svd_sorted
      ex_conforming k]
  obtain vs where vs: "lip_locals svd_diag W_ex X_ex Y_ex 1 = Inr vs"
      "var_W_k vs = truncated_svd_reference (svd_diag W_ex) (nat 1)"
    and best: "\<And>P Q. nrows P = nrows W_ex \<and> ncols P = nat 1 \<and> nrows Q = nat 1 \<and>
        ncols Q = ncols W_ex \<Longrightarrow>
        frobenius (zip2 (\<lambda>x y. x - y) W_ex (var_W_k vs)) \<le>
        frobenius (zip2 (\<lambda>x y. x - y) W_ex (mm P Q))"
    by blast
  from vs(2) have "var_W_k vs = Tensor 2 2 [[2, 0], [0, 0]]"
    by (simp only: ex_truncated)
  with vs best [OF PQ] PQ k ex_svd_shapes ex_svd_exact ex_svd_orthonormal ex_svd_sorted
    ex_conforming
  show ?thesis
    by blast
qed




text \<open>
  C8. For every valid input the matrix \<open>lip\<close> returns has the shape of \<open>W_noisy\<close>,
  \<open>(q, l)\<close>: with a decomposition of the documented shapes and conforming \<open>X\<close> and
  \<open>Y\<close>, the call returns, and what it returns is a well-formed tensor with the row and
  column counts of \<open>W_noisy\<close>. The rank parameter plays no part in this.
\<close>

theorem lip_shape:
  fixes svd :: "'a::{comm_monoid_add,times,minus,divide} svd_fun"
  assumes "svd_shapes svd W_noisy" and "conforming W_noisy X Y"
  shows "\<exists>W_refined. lip svd W_noisy X Y k = Inr W_refined \<and> well_formed W_refined \<and>
           nrows W_refined = nrows W_noisy \<and> ncols W_refined = ncols W_noisy"
proof -
  obtain U S Vh where svd: "svd W_noisy = (U, S, Vh)"
    by (cases "svd W_noisy") auto
  note sh = svd_shapesD [OF assms(1) svd]
  from assms(2) sh have c: "ncols X = nrows U" "nrows Y = nrows X" "ncols Y = ncols Vh"
    by (simp_all add: conforming_def)
  show ?thesis
    unfolding lip_def lip_locals_ok [of svd W_noisy U S Vh X Y k, OF svd sh(2,3) c]
    by (simp add: sh)
qed

theorem lip_shape_witness:
  "svd_shapes svd_diag W_ex \<and> conforming W_ex X_ex Y_ex \<and>
   (\<exists>W_refined. lip svd_diag W_ex X_ex Y_ex 1 = Inr W_refined \<and> well_formed W_refined \<and>
      nrows W_refined = nrows W_ex \<and> ncols W_refined = ncols W_ex)"
  using lip_shape [OF ex_svd_shapes ex_conforming, of 1] ex_svd_shapes ex_conforming
  by blast

text \<open>
  C9. A rank parameter above \<open>min(q, l)\<close> raises nothing of its own: the slices
  \<open>U[:, :k]\<close>, \<open>V[:, :k]\<close> and \<open>S[:k]\<close> stop at the last component, so the call
  is the call with \<open>k = min(q, l)\<close>, whatever that one does, and with conforming \<open>X\<close>
  and \<open>Y\<close> it returns a matrix.
\<close>

theorem lip_rank_clamp:
  fixes svd :: "'a::{comm_monoid_add,times,minus,divide} svd_fun"
  assumes "svd_shapes svd W_noisy" and "int (min (nrows W_noisy) (ncols W_noisy)) < k"
  shows "lip svd W_noisy X Y k = lip svd W_noisy X Y (int (min (nrows W_noisy) (ncols W_noisy))) \<and>
         (conforming W_noisy X Y \<longrightarrow> (\<exists>W_refined. lip svd W_noisy X Y k = Inr W_refined))"
proof -
  obtain U S Vh where svd: "svd W_noisy = (U, S, Vh)"
    by (cases "svd W_noisy") auto
  note sh = svd_shapesD [OF assms(1) svd]
  define m where "m = min (nrows W_noisy) (ncols W_noisy)"
  have k: "int (length S) \<le> k" "int (ncols U) \<le> k" "int (nrows Vh) \<le> k"
    using assms(2) sh by simp_all
  have slices: "slice_cols_to U k = slice_cols_to U (int m)"
      "slice_cols_to (transpose_t Vh) k = slice_cols_to (transpose_t Vh) (int m)"
      "slice_to S k = slice_to S (int m)"
      "slice_cols_from U k = slice_cols_from U (int m)"
      "slice_cols_from (transpose_t Vh) k = slice_cols_from (transpose_t Vh) (int m)"
    using k sh by (simp_all add: slice_cols_to_def slice_cols_from_def slice_to_def m_def)
  have eq: "lip svd W_noisy X Y k = lip svd W_noisy X Y (int m)"
    unfolding lip_def lip_locals_def svd by (simp only: Let_def prod.case slices)
  have "\<exists>W_refined. lip svd W_noisy X Y k = Inr W_refined" if "conforming W_noisy X Y"
  proof -
    from that sh have c: "ncols X = nrows U" "nrows Y = nrows X" "ncols Y = ncols Vh"
      by (simp_all add: conforming_def)
    show ?thesis
      unfolding lip_def lip_locals_ok [of svd W_noisy U S Vh X Y k, OF svd sh(2,3) c]
      by simp
  qed
  with eq show ?thesis
    unfolding m_def by blast
qed

theorem lip_rank_clamp_witness:
  "svd_shapes svd_diag W_ex \<and> int (min (nrows W_ex) (ncols W_ex)) < 3 \<and>
   lip svd_diag W_ex X_ex Y_ex 3 = lip svd_diag W_ex X_ex Y_ex (int (min (nrows W_ex) (ncols W_ex))) \<and>
   conforming W_ex X_ex Y_ex \<and> (\<exists>W_refined. lip svd_diag W_ex X_ex Y_ex 3 = Inr W_refined)"
proof -
  have k: "int (min (nrows W_ex) (ncols W_ex)) < 3"
    by (simp add: W_ex_def)
  from lip_rank_clamp [OF ex_svd_shapes k, of X_ex Y_ex] ex_svd_shapes k ex_conforming
  show ?thesis by blast
qed

text \<open>
  C10. \<open>lip\<close> never mutates its arguments. On the store, whatever the call does
  (return or raise), every storage that existed before the call is unchanged after
  it, so the tensors \<open>W_noisy\<close>, \<open>X\<close> and \<open>Y\<close> read as before; and the call on the
  store computes what \<open>lip\<close> computes on the values.
\<close>

theorem lip_st_frame:
  fixes svd :: "'a::{comm_monoid_add,times,minus,divide} svd_fun"
  assumes "base W_noisy < length h" and "base X < length h" and "base Y < length h"
  shows "case lip_st svd W_noisy X Y k h of (res, h') \<Rightarrow>
           take (length h) h' = h \<and>
           deref h' W_noisy = deref h W_noisy \<and> deref h' X = deref h X \<and>
           deref h' Y = deref h Y \<and>
           map_sum id (deref h') res = lip svd (deref h W_noisy) (deref h X) (deref h Y) k"
proof -
  obtain res h' where run: "lip_st svd W_noisy X Y k h = (res, h')"
    by (cases "lip_st svd W_noisy X Y k h") auto
  from grows_lip_st [of svd W_noisy X Y k] obtain ext where "snd (lip_st svd W_noisy X Y k h) = h @ ext"
    unfolding grows_def by blast
  with run have h': "h' = h @ ext"
    by simp
  from lip_st_refines [OF assms, of svd k] run
  have "map_sum id (deref h') res = lip svd (deref h W_noisy) (deref h X) (deref h Y) k"
    by simp
  with h' assms show ?thesis
    unfolding run by simp
qed

theorem lip_st_frame_witness:
  "base (TRef 0 []) < length store_ex \<and> base (TRef 1 []) < length store_ex \<and>
   base (TRef 2 []) < length store_ex \<and>
   (case lip_st svd_diag (TRef 0 []) (TRef 1 []) (TRef 2 []) 1 store_ex of (res, h') \<Rightarrow>
      take (length store_ex) h' = store_ex \<and>
      deref h' (TRef 0 []) = deref store_ex (TRef 0 []) \<and>
      deref h' (TRef 1 []) = deref store_ex (TRef 1 []) \<and>
      deref h' (TRef 2 []) = deref store_ex (TRef 2 []) \<and>
      map_sum id (deref h') res =
        lip svd_diag (deref store_ex (TRef 0 [])) (deref store_ex (TRef 1 []))
          (deref store_ex (TRef 2 [])) 1)"
proof -
  have b: "base (TRef 0 []) < length store_ex" "base (TRef 1 []) < length store_ex"
    "base (TRef 2 []) < length store_ex"
    by (simp_all add: store_ex_def)
  from lip_st_frame [OF b, of svd_diag 1] b show ?thesis
    by blast
qed

end
